theory Spec2Isabelle
  imports
    Main
    "HOL-Library.Word"
    "HOL-Library.Product_Lexorder"
    "HOL-Library.List_Lexorder"
begin

section \<open>Peer slots (avalanche/peermanager.h)\<close>

text \<open>
  A \<open>Slot\<close> is the pair of unsigned 64-bit bounds of the struct; the three member
  functions are its predicates, with the comparisons of the source on \<open>uint64_t\<close>.
\<close>

record Slot =
  start :: "64 word"
  stop :: "64 word"

definition contains :: "Slot \<Rightarrow> 64 word \<Rightarrow> bool" where
  "contains s slot \<longleftrightarrow> start s \<le> slot \<and> slot < stop s"

definition precedes :: "Slot \<Rightarrow> 64 word \<Rightarrow> bool" where
  "precedes s slot \<longleftrightarrow> slot \<ge> stop s"

definition follows :: "Slot \<Rightarrow> 64 word \<Rightarrow> bool" where
  "follows s slot \<longleftrightarrow> start s > slot"

text \<open>
  The private members of class \<open>PeerManager\<close>. The header only declares
  \<open>rescorePeer\<close>; its body is in a translation unit that is not part of the sources at hand,
  so \<open>removePeer\<close>, which the header defines inline, takes it as an argument.
\<close>

record PeerManager =
  slots :: "Slot list"
  slotCount :: "64 word"
  fragmentation :: "64 word"

definition removePeer ::
  "(nat \<Rightarrow> 64 word \<Rightarrow> PeerManager \<Rightarrow> PeerManager) \<Rightarrow> nat \<Rightarrow> PeerManager \<Rightarrow> PeerManager" where
  "removePeer rescorePeer i pm = rescorePeer i 0 pm"

section \<open>The proof pool (avalanche/proofpool.cpp)\<close>

subsection \<open>Data\<close>

text \<open>
  Modelled from the spec: the types of proofs, proof ids and outpoints, which
  \<open>proofpool.cpp\<close> uses and does not declare. A proof is "an immutable Proof value
  exposing a unique identifier, an ordered list of staked outputs"; an outpoint is "a
  transaction id + output index". The pool only ever compares ids and outpoints for
  equality, so they are numbers here. \<open>s.getStake().getUTXO()\<close> of the \<open>i\<close>-th stake is
  the \<open>i\<close>-th element of \<open>getStakes\<close>. A \<open>ProofRef\<close> is a shared reference to an
  immutable proof and is represented by the proof it refers to.
\<close>

type_synonym ProofId = nat
type_synonym COutPoint = "nat \<times> nat"

datatype Proof = Proof (getId: ProofId) (getStakes: "COutPoint list")

text \<open>
  Modelled from the spec: the entry type of the container, declared in \<open>proofpool.h\<close>.
  An entry is "the tuple (staked output, owning Proof reference)", one "per (proof, stake)
  pair"; \<open>pool.emplace(i, proof)\<close> builds it from a stake index and the proof, and its key
  in the unique index is the outpoint of that stake. The loop of \<open>addProofIfNoConflict\<close>
  is the only place that builds entries and it does so with \<open>i < getStakes().size()\<close>,
  so the stake of an entry always exists (lemma \<open>run_indices_in_range\<close> below).
\<close>

datatype ProofPoolEntry = ProofPoolEntry (utxoIndex: nat) (entry_proof: Proof)

definition getUTXO :: "ProofPoolEntry \<Rightarrow> COutPoint" where
  "getUTXO e = getStakes (entry_proof e) ! utxoIndex e"

text \<open>
  Modelled from the spec: the container type of the member \<open>pool\<close>, declared in
  \<open>proofpool.h\<close>. It holds one collection of entries with two indexes, "by-output:
  output \<rightarrow> entry, unique key" and "by-proofid: proofid \<rightarrow> set of entries". It is the
  list of its entries in insertion order; uniqueness of the outpoint key is not built
  into the type but enforced by \<open>emplace\<close>, as in the container, and proved as an
  invariant.
\<close>

type_synonym ProofPool = "ProofPoolEntry list"

text \<open>
  Modelled from the spec: the result codes of \<open>AddProofStatus\<close>, declared in
  \<open>proofpool.h\<close>: "\<open>DUPLICATED\<close> (no-op, same proof already present), \<open>REJECTED\<close> (stake
  conflict, pool unchanged, conflicting proofs reported), \<open>SUCCEED\<close>".
\<close>

datatype AddProofStatus = REJECTED | SUCCEED | DUPLICATED

text \<open>
  The ways a call can end without returning: a failed \<open>assert\<close>, and the dereference of
  \<open>begin()\<close> of an empty set.
\<close>

datatype error = AssertionFailed | EndDereferenced

text \<open>
  Modelled from the spec: the type \<open>ConflictingProofSet\<close>, declared in \<open>proofpool.h\<close>:
  "a set, deduplicated", ordered by the conflict comparator so that its first element is
  "the (single, best) conflicting proof". The comparator itself is defined in
  \<open>proofcomparator.h\<close>, outside the sources at hand: it is an argument \<open>compare\<close>,
  \<open>compare a b\<close> meaning that \<open>a\<close> is ordered before (preferred to) \<open>b\<close>. The set is the
  list of its elements in iteration order; \<open>set_insert\<close> walks to the first element that
  is not ordered before the new one and inserts there unless that element is equivalent
  (neither ordered before the other).
\<close>

type_synonym ConflictingProofSet = "Proof list"

fun set_insert :: "(Proof \<Rightarrow> Proof \<Rightarrow> bool) \<Rightarrow> Proof \<Rightarrow> ConflictingProofSet \<Rightarrow> ConflictingProofSet" where
  "set_insert compare x [] = [x]"
| "set_insert compare x (y # ys) =
     (if compare y x then y # set_insert compare x ys
      else if compare x y then x # y # ys
      else y # ys)"

subsection \<open>Container operations\<close>

text \<open>\<open>pool.find(outpoint)\<close> on the unique index; \<open>None\<close> is \<open>pool.end()\<close>.\<close>

definition find_utxo :: "COutPoint \<Rightarrow> ProofPool \<Rightarrow> ProofPoolEntry option" where
  "find_utxo outpoint pool = find (\<lambda>e. getUTXO e = outpoint) pool"

text \<open>\<open>poolView.find(proofid)\<close> on the index by proof id.\<close>

definition find_proofid :: "ProofId \<Rightarrow> ProofPool \<Rightarrow> ProofPoolEntry option" where
  "find_proofid proofid pool = find (\<lambda>e. getId (entry_proof e) = proofid) pool"

text \<open>
  \<open>pool.emplace(i, proof)\<close>: the entry is inserted unless an entry with the same outpoint
  is present; the result is the new state, the entry the returned iterator points to and
  the flag \<open>p.second\<close>.
\<close>

definition emplace :: "nat \<Rightarrow> Proof \<Rightarrow> ProofPool \<Rightarrow> ProofPool \<times> ProofPoolEntry \<times> bool" where
  "emplace i proof pool =
     (let e = ProofPoolEntry i proof in
      case find_utxo (getUTXO e) pool of
        Some e' \<Rightarrow> (pool, e', False)
      | None \<Rightarrow> (pool @ [e], e, True))"

text \<open>\<open>pool.erase(it)\<close> removes the one entry the iterator points to.\<close>

definition erase :: "ProofPoolEntry \<Rightarrow> ProofPool \<Rightarrow> ProofPool" where
  "erase e pool = remove1 e pool"

text \<open>\<open>poolView.erase(proofid)\<close> removes every entry with that id and returns their number.\<close>

definition erase_proofid :: "ProofId \<Rightarrow> ProofPool \<Rightarrow> ProofPool \<times> nat" where
  "erase_proofid proofid pool =
     (filter (\<lambda>e. getId (entry_proof e) \<noteq> proofid) pool,
      length (filter (\<lambda>e. getId (entry_proof e) = proofid) pool))"

subsection \<open>Pool operations\<close>

text \<open>The first loop of \<open>addProofIfNoConflict\<close>: one \<open>emplace\<close> per stake index.\<close>

definition attach_step ::
  "(Proof \<Rightarrow> Proof \<Rightarrow> bool) \<Rightarrow> Proof \<Rightarrow> nat \<Rightarrow> ProofPool \<times> ConflictingProofSet
     \<Rightarrow> ProofPool \<times> ConflictingProofSet" where
  "attach_step compare proof i = (\<lambda>(pool, conflictingProofs).
     case emplace i proof pool of
       (pool', e, inserted) \<Rightarrow>
         if \<not> inserted then (pool', set_insert compare (entry_proof e) conflictingProofs)
         else (pool', conflictingProofs))"

definition attach_utxos ::
  "(Proof \<Rightarrow> Proof \<Rightarrow> bool) \<Rightarrow> Proof \<Rightarrow> ProofPool \<Rightarrow> ProofPool \<times> ConflictingProofSet" where
  "attach_utxos compare proof pool =
     fold (attach_step compare proof) [0..<length (getStakes proof)] (pool, [])"

text \<open>
  The second loop: for every stake the entry holding its outpoint is looked up, the
  assertion requires that it is found, and it is erased when it belongs to the proof.
\<close>

fun cleanup :: "ProofId \<Rightarrow> COutPoint list \<Rightarrow> ProofPool \<Rightarrow> error + ProofPool" where
  "cleanup proofid [] pool = Inr pool"
| "cleanup proofid (s # ss) pool =
     (case find_utxo s pool of
        None \<Rightarrow> Inl AssertionFailed
      | Some e \<Rightarrow>
          cleanup proofid ss
            (if getId (entry_proof e) = proofid then erase e pool else pool))"

definition addProofIfNoConflict ::
  "(Proof \<Rightarrow> Proof \<Rightarrow> bool) \<Rightarrow> Proof \<Rightarrow> ProofPool
     \<Rightarrow> error + (AddProofStatus \<times> ConflictingProofSet \<times> ProofPool)" where
  "addProofIfNoConflict compare proof pool =
     (let proofid = getId proof in
      if find_proofid proofid pool \<noteq> None then Inr (DUPLICATED, [], pool)
      else
        case attach_utxos compare proof pool of
          (pool1, conflictingProofs) \<Rightarrow>
            if length conflictingProofs > 0 then
              (case cleanup proofid (getStakes proof) pool1 of
                 Inl err \<Rightarrow> Inl err
               | Inr pool2 \<Rightarrow> Inr (REJECTED, conflictingProofs, pool2))
            else Inr (SUCCEED, conflictingProofs, pool1))"

text \<open>\<open>removeProof\<close>: the number of erased entries converted to \<open>bool\<close>.\<close>

definition removeProof :: "Proof \<Rightarrow> ProofPool \<Rightarrow> bool \<times> ProofPool" where
  "removeProof proof pool =
     (case erase_proofid (getId proof) pool of (pool', count) \<Rightarrow> (count \<noteq> 0, pool'))"

text \<open>
  \<open>addProofIfPreferred\<close>. \<open>!added\<close> is the test for \<open>REJECTED\<close> ("in case the proof
  was rejected due to conflict", as the comment above it says);
  \<open>*conflictingProofs.begin()\<close> is the first element of the set, and dereferencing the
  end of an empty set is an error of its own. The retry uses the overload without an
  out-parameter, so the caller's set keeps the conflicts of the first attempt.
\<close>

definition addProofIfPreferred ::
  "(Proof \<Rightarrow> Proof \<Rightarrow> bool) \<Rightarrow> Proof \<Rightarrow> ProofPool
     \<Rightarrow> error + (AddProofStatus \<times> ConflictingProofSet \<times> ProofPool)" where
  "addProofIfPreferred compare proof pool =
     (case addProofIfNoConflict compare proof pool of
        Inl err \<Rightarrow> Inl err
      | Inr (added, conflictingProofs, pool1) \<Rightarrow>
          if added \<noteq> REJECTED then Inr (added, conflictingProofs, pool1)
          else
            (case conflictingProofs of
               [] \<Rightarrow> Inl EndDereferenced
             | best # _ \<Rightarrow>
                 if compare proof best then
                   (let pool2 = fold (\<lambda>conflictingProof p. snd (removeProof conflictingProof p))
                                  conflictingProofs pool1
                    in case addProofIfNoConflict compare proof pool2 of
                         Inl err \<Rightarrow> Inl err
                       | Inr (added', _, pool3) \<Rightarrow>
                           if added' = SUCCEED then Inr (added', conflictingProofs, pool3)
                           else Inl AssertionFailed)
                 else Inr (added, conflictingProofs, pool1)))"

text \<open>
  \<open>rescan\<close>: the entries are moved out, the pool is cleared and every entry's proof is
  passed to \<open>peerManager.registerProof\<close>. That member is not part of the sources at hand;
  it is an argument acting on the peer manager.
\<close>

definition rescan ::
  "(Proof \<Rightarrow> 'pm \<Rightarrow> 'pm) \<Rightarrow> ProofPool \<times> 'pm \<Rightarrow> ProofPool \<times> 'pm" where
  "rescan registerProof = (\<lambda>(pool, peerManager).
     let previousPool = pool; pool' = []
     in (pool', fold (\<lambda>entry. registerProof (entry_proof entry)) previousPool peerManager))"

text \<open>The two overloads of \<open>getProof\<close>; \<open>None\<close> is the null reference.\<close>

definition getProof_id :: "ProofId \<Rightarrow> ProofPool \<Rightarrow> Proof option" where
  "getProof_id proofid pool = map_option entry_proof (find_proofid proofid pool)"

definition getProof_outpoint :: "COutPoint \<Rightarrow> ProofPool \<Rightarrow> Proof option" where
  "getProof_outpoint outpoint pool = map_option entry_proof (find_utxo outpoint pool)"

text \<open>A sequence of public calls, run from a pool; the first failed assertion ends it.\<close>

datatype PoolCall =
    AddProofIfNoConflict Proof
  | AddProofIfPreferred Proof
  | RemoveProof Proof

fun call :: "(Proof \<Rightarrow> Proof \<Rightarrow> bool) \<Rightarrow> PoolCall \<Rightarrow> ProofPool \<Rightarrow> error + ProofPool" where
  "call compare (AddProofIfNoConflict p) pool =
     map_sum id (\<lambda>(added, conflictingProofs, pool'). pool') (addProofIfNoConflict compare p pool)"
| "call compare (AddProofIfPreferred p) pool =
     map_sum id (\<lambda>(added, conflictingProofs, pool'). pool') (addProofIfPreferred compare p pool)"
| "call compare (RemoveProof p) pool = Inr (snd (removeProof p pool))"

fun run :: "(Proof \<Rightarrow> Proof \<Rightarrow> bool) \<Rightarrow> PoolCall list \<Rightarrow> ProofPool \<Rightarrow> error + ProofPool" where
  "run compare [] pool = Inr pool"
| "run compare (c # cs) pool =
     (case call compare c pool of Inl err \<Rightarrow> Inl err | Inr pool' \<Rightarrow> run compare cs pool')"

subsection \<open>Notions used in the properties\<close>

text \<open>The invariant of the unique index: no two entries of the pool have the same outpoint.\<close>

definition unique_outputs :: "ProofPool \<Rightarrow> bool" where
  "unique_outputs pool \<longleftrightarrow> distinct (map getUTXO pool)"

text \<open>Every entry names a stake that its proof has.\<close>

definition indices_in_range :: "ProofPool \<Rightarrow> bool" where
  "indices_in_range pool \<longleftrightarrow>
     list_all (\<lambda>e. utxoIndex e < length (getStakes (entry_proof e))) pool"

text \<open>
  What the pool requires of the comparator: a strict total order on proofs
  (irreflexive, transitive, and any two different proofs are ordered one way or the other).
\<close>

definition strict_total_order :: "(Proof \<Rightarrow> Proof \<Rightarrow> bool) \<Rightarrow> bool" where
  "strict_total_order compare \<longleftrightarrow>
     (\<forall>a. \<not> compare a a) \<and>
     (\<forall>a b c. compare a b \<longrightarrow> compare b c \<longrightarrow> compare a c) \<and>
     (\<forall>a b. a \<noteq> b \<longrightarrow> compare a b \<or> compare b a)"

text \<open>
  One such order, used to run the pool on concrete proofs: the proof with the lower id
  comes first, the stake lists deciding between proofs of equal id.
\<close>

definition lowestIdFirst :: "Proof \<Rightarrow> Proof \<Rightarrow> bool" where
  "lowestIdFirst a b \<longleftrightarrow> (getId a, getStakes a) < (getId b, getStakes b)"

section \<open>Properties of slots and of the peer manager\<close>

text \<open>
  Claim C9. For a slot with \<open>start \<le> stop\<close> and any 64-bit value, exactly one of
  \<open>contains\<close>, \<open>precedes\<close> and \<open>follows\<close> holds. Without that bound \<open>precedes\<close> and
  \<open>follows\<close> can hold of the same value; they do so exactly when \<open>stop < start\<close>.
\<close>

theorem slot_trichotomy:
  "(start s \<le> stop s \<longrightarrow>
      (contains s x \<and> \<not> precedes s x \<and> \<not> follows s x) \<or>
      (\<not> contains s x \<and> precedes s x \<and> \<not> follows s x) \<or>
      (\<not> contains s x \<and> \<not> precedes s x \<and> follows s x)) \<and>
   ((\<exists>y. precedes s y \<and> follows s y) \<longleftrightarrow> stop s < start s)"
proof (intro conjI impI)
  assume "start s \<le> stop s"
  then show "(contains s x \<and> \<not> precedes s x \<and> \<not> follows s x) \<or>
      (\<not> contains s x \<and> precedes s x \<and> \<not> follows s x) \<or>
      (\<not> contains s x \<and> \<not> precedes s x \<and> follows s x)"
    unfolding contains_def precedes_def follows_def
    by (simp add: word_le_nat_alt word_less_nat_alt) arith
next
  show "(\<exists>y. precedes s y \<and> follows s y) \<longleftrightarrow> stop s < start s"
  proof
    assume "\<exists>y. precedes s y \<and> follows s y"
    then obtain y where "stop s \<le> y" "y < start s"
      unfolding precedes_def follows_def by blast
    then show "stop s < start s" by (rule le_less_trans)
  next
    assume "stop s < start s"
    then have "precedes s (stop s) \<and> follows s (stop s)"
      unfolding precedes_def follows_def by simp
    then show "\<exists>y. precedes s y \<and> follows s y" ..
  qed
qed

theorem slot_trichotomy_witness:
  "start \<lparr>start = 10, stop = 30\<rparr> \<le> stop \<lparr>start = 10, stop = 30\<rparr> \<and>
   contains \<lparr>start = 10, stop = 30\<rparr> 15 \<and>
   \<not> precedes \<lparr>start = 10, stop = 30\<rparr> 15 \<and>
   \<not> follows \<lparr>start = 10, stop = 30\<rparr> 15 \<and>
   stop \<lparr>start = 5, stop = 3\<rparr> < start \<lparr>start = 5, stop = 3\<rparr> \<and>
   (\<exists>y. precedes \<lparr>start = 5, stop = 3\<rparr> y \<and> follows \<lparr>start = 5, stop = 3\<rparr> y)"
proof -
  have a: "start \<lparr>start = 10, stop = 30\<rparr> \<le> stop \<lparr>start = 10, stop = 30\<rparr>"
    by simp
  have c: "contains \<lparr>start = 10, stop = 30\<rparr> 15"
    by (simp add: contains_def)
  have b: "stop \<lparr>start = 5, stop = 3\<rparr> < start \<lparr>start = 5, stop = 3\<rparr>"
    by simp
  from slot_trichotomy [of "\<lparr>start = 10, stop = 30\<rparr>" 15] a c
  have d: "\<not> precedes \<lparr>start = 10, stop = 30\<rparr> 15 \<and> \<not> follows \<lparr>start = 10, stop = 30\<rparr> 15"
    by blast
  from slot_trichotomy [of "\<lparr>start = 5, stop = 3\<rparr>" 0] b
  have e: "\<exists>y. precedes \<lparr>start = 5, stop = 3\<rparr> y \<and> follows \<lparr>start = 5, stop = 3\<rparr> y"
    by blast
  from a c d b e show ?thesis by blast
qed

text \<open>
  Claim C8. \<open>removePeer(i)\<close> yields the state that \<open>rescorePeer(i, 0)\<close> yields, whatever
  \<open>rescorePeer\<close> does: the same slots, the same slot count and the same fragmentation.
\<close>

theorem removePeer_is_rescorePeer_zero:
  "removePeer rescorePeer i pm = rescorePeer i 0 pm \<and>
   slots (removePeer rescorePeer i pm) = slots (rescorePeer i 0 pm) \<and>
   slotCount (removePeer rescorePeer i pm) = slotCount (rescorePeer i 0 pm) \<and>
   fragmentation (removePeer rescorePeer i pm) = fragmentation (rescorePeer i 0 pm)"
  by (simp add: removePeer_def)

section \<open>Properties of the proof pool\<close>

subsection \<open>Lookups\<close>

lemma find_None_iff2: "find P xs = None \<longleftrightarrow> (\<forall>x\<in>set xs. \<not> P x)"
  by (induction xs) auto

lemma find_SomeD: "find P xs = Some x \<Longrightarrow> x \<in> set xs \<and> P x"
  by (induction xs) (auto split: if_splits)

lemma find_utxo_None: "find_utxo outpoint pool = None \<longleftrightarrow> outpoint \<notin> getUTXO ` set pool"
  by (auto simp: find_utxo_def find_None_iff2)

lemma find_utxo_SomeD:
  "find_utxo outpoint pool = Some e \<Longrightarrow> e \<in> set pool \<and> getUTXO e = outpoint"
  unfolding find_utxo_def by (rule find_SomeD)

subsection \<open>Rescan and removal\<close>

text \<open>
  Claim C6. A second \<open>rescan\<close> right after a first one leaves the peer manager (and the
  pool) as the first one left them: the first call empties the pool and hands every held
  proof to \<open>registerProof\<close>, so the second call has nothing to replay.
\<close>

theorem rescan_twice:
  "rescan registerProof (rescan registerProof (pool, peerManager)) =
     rescan registerProof (pool, peerManager) \<and>
   fst (rescan registerProof (pool, peerManager)) = [] \<and>
   snd (rescan registerProof (pool, peerManager)) =
     fold (\<lambda>entry. registerProof (entry_proof entry)) pool peerManager"
  by (simp add: rescan_def)

text \<open>
  Claim C7. \<open>removeProof(proof)\<close> keeps exactly the entries of other proof ids, so that
  afterwards neither lookup finds an entry of that id; it returns true if and only if
  the pool had an entry of that id, and when it returns false the pool is unchanged.
\<close>

theorem removeProof_spec:
  "case removeProof p pool of (removed, pool') \<Rightarrow>
     set pool' = {e \<in> set pool. getId (entry_proof e) \<noteq> getId p} \<and>
     getProof_id (getId p) pool' = None \<and>
     (\<forall>outpoint q. getProof_outpoint outpoint pool' = Some q \<longrightarrow> getId q \<noteq> getId p) \<and>
     (removed \<longleftrightarrow> (\<exists>e\<in>set pool. getId (entry_proof e) = getId p)) \<and>
     (\<not> removed \<longrightarrow> pool' = pool)"
proof -
  let ?keep = "filter (\<lambda>e. getId (entry_proof e) \<noteq> getId p) pool"
  let ?gone = "filter (\<lambda>e. getId (entry_proof e) = getId p) pool"
  have r: "removeProof p pool = (length ?gone \<noteq> 0, ?keep)"
    by (simp add: removeProof_def erase_proofid_def)
  have s: "set ?keep = {e \<in> set pool. getId (entry_proof e) \<noteq> getId p}"
    by simp
  have g: "getProof_id (getId p) ?keep = None"
    by (simp add: getProof_id_def find_proofid_def find_None_iff2)
  have o: "\<forall>outpoint q. getProof_outpoint outpoint ?keep = Some q \<longrightarrow> getId q \<noteq> getId p"
  proof (intro allI impI)
    fix outpoint q
    assume "getProof_outpoint outpoint ?keep = Some q"
    then obtain e where f: "find_utxo outpoint ?keep = Some e" and q: "q = entry_proof e"
      by (auto simp: getProof_outpoint_def)
    from find_utxo_SomeD [OF f] have "e \<in> set ?keep" by (rule conjunct1)
    then have "getId (entry_proof e) \<noteq> getId p" by simp
    with q show "getId q \<noteq> getId p" by simp
  qed
  have b: "(length ?gone \<noteq> 0) \<longleftrightarrow> (\<exists>e\<in>set pool. getId (entry_proof e) = getId p)"
    by (simp add: filter_empty_conv)
  have u: "\<not> length ?gone \<noteq> 0 \<longrightarrow> ?keep = pool"
    by (simp add: filter_empty_conv filter_id_conv)
  show ?thesis
    unfolding r prod.case by (intro conjI s g o b u)
qed

theorem removeProof_spec_witness:
  "removeProof (Proof 1 [(7, 0), (8, 0)])
     [ProofPoolEntry 0 (Proof 1 [(7, 0), (8, 0)]), ProofPoolEntry 0 (Proof 2 [(9, 0)]),
      ProofPoolEntry 1 (Proof 1 [(7, 0), (8, 0)])]
     = (True, [ProofPoolEntry 0 (Proof 2 [(9, 0)])]) \<and>
   getProof_id (getId (Proof 1 [(7, 0), (8, 0)])) [ProofPoolEntry 0 (Proof 2 [(9, 0)])] = None \<and>
   removeProof (Proof 3 [(7, 0)]) [ProofPoolEntry 0 (Proof 2 [(9, 0)])]
     = (False, [ProofPoolEntry 0 (Proof 2 [(9, 0)])])"
proof -
  have a: "removeProof (Proof 1 [(7, 0), (8, 0)])
     [ProofPoolEntry 0 (Proof 1 [(7, 0), (8, 0)]), ProofPoolEntry 0 (Proof 2 [(9, 0)]),
      ProofPoolEntry 1 (Proof 1 [(7, 0), (8, 0)])]
     = (True, [ProofPoolEntry 0 (Proof 2 [(9, 0)])])"
    by code_simp
  have b: "removeProof (Proof 3 [(7, 0)]) [ProofPoolEntry 0 (Proof 2 [(9, 0)])]
     = (False, [ProofPoolEntry 0 (Proof 2 [(9, 0)])])"
    by code_simp
  note t = removeProof_spec [where p = "Proof 1 [(7, 0), (8, 0)]" and pool =
      "[ProofPoolEntry 0 (Proof 1 [(7, 0), (8, 0)]), ProofPoolEntry 0 (Proof 2 [(9, 0)]),
        ProofPoolEntry 1 (Proof 1 [(7, 0), (8, 0)])]", unfolded a prod.case]
  from t have "getProof_id (getId (Proof 1 [(7, 0), (8, 0)])) [ProofPoolEntry 0 (Proof 2 [(9, 0)])] = None"
    by (elim conjE)
  with a b show ?thesis by (intro conjI)
qed

subsection \<open>The unique index stays unique\<close>

lemma distinct_map_remove1: "distinct (map f xs) \<Longrightarrow> distinct (map f (remove1 x xs))"
proof (induction xs)
  case Nil
  then show ?case by simp
next
  case (Cons y ys)
  have "set (remove1 x ys) \<subseteq> set ys" by (rule set_remove1_subset)
  with Cons show ?case by auto
qed

lemma emplace_unique:
  assumes "unique_outputs pool"
  shows "unique_outputs (fst (emplace i p pool))"
proof (cases "find_utxo (getUTXO (ProofPoolEntry i p)) pool")
  case None
  then have "getUTXO (ProofPoolEntry i p) \<notin> getUTXO ` set pool"
    by (simp add: find_utxo_None)
  with assms None show ?thesis
    by (simp add: emplace_def Let_def unique_outputs_def)
next
  case (Some e)
  with assms show ?thesis by (simp add: emplace_def Let_def)
qed

lemma attach_step_unique:
  "unique_outputs (fst st) \<Longrightarrow> unique_outputs (fst (attach_step compare p i st))"
  using emplace_unique [of "fst st" i p]
  by (cases st) (auto simp: attach_step_def split: prod.splits)

lemma fold_attach_unique:
  "unique_outputs (fst st) \<Longrightarrow> unique_outputs (fst (fold (attach_step compare p) js st))"
  by (induction js arbitrary: st) (simp_all add: attach_step_unique)

lemma attach_utxos_unique:
  "unique_outputs pool \<Longrightarrow> unique_outputs (fst (attach_utxos compare p pool))"
  unfolding attach_utxos_def by (rule fold_attach_unique) simp

lemma cleanup_unique:
  "unique_outputs pool \<Longrightarrow> cleanup proofid ss pool = Inr pool' \<Longrightarrow> unique_outputs pool'"
proof (induction ss arbitrary: pool)
  case Nil
  then show ?case by simp
next
  case (Cons s ss)
  from Cons.prems(2) obtain e where e: "find_utxo s pool = Some e"
    by (cases "find_utxo s pool") simp_all
  let ?next = "if getId (entry_proof e) = proofid then erase e pool else pool"
  have "unique_outputs ?next"
    using Cons.prems(1) by (simp add: unique_outputs_def erase_def distinct_map_remove1)
  moreover have "cleanup proofid ss ?next = Inr pool'"
    using Cons.prems(2) e by simp
  ultimately show ?case by (rule Cons.IH)
qed

lemma addProofIfNoConflict_unique:
  assumes "unique_outputs pool"
    and "addProofIfNoConflict compare p pool = Inr (added, conflictingProofs, pool')"
  shows "unique_outputs pool'"
proof (cases "find_proofid (getId p) pool \<noteq> None")
  case True
  with assms show ?thesis by (simp add: addProofIfNoConflict_def)
next
  case False
  obtain pool1 cs where a: "attach_utxos compare p pool = (pool1, cs)"
    by (cases "attach_utxos compare p pool")
  have u1: "unique_outputs pool1"
    using attach_utxos_unique [OF assms(1), of compare p] a by simp
  show ?thesis
  proof (cases "cs = []")
    case True
    with assms(2) False a u1 show ?thesis
      by (simp add: addProofIfNoConflict_def)
  next
    case nonempty: False
    with assms(2) False a have "cleanup (getId p) (getStakes p) pool1 = Inr pool'"
      by (simp add: addProofIfNoConflict_def split: sum.splits)
    with u1 show ?thesis by (rule cleanup_unique)
  qed
qed

lemma removeProof_unique:
  "unique_outputs pool \<Longrightarrow> unique_outputs (snd (removeProof p pool))"
  by (simp add: removeProof_def erase_proofid_def unique_outputs_def distinct_map_filter)

lemma fold_removeProof_unique:
  "unique_outputs pool \<Longrightarrow>
   unique_outputs (fold (\<lambda>conflictingProof p. snd (removeProof conflictingProof p)) cs pool)"
  by (induction cs arbitrary: pool) (simp_all add: removeProof_unique)

lemma addProofIfPreferred_unique:
  assumes "unique_outputs pool"
    and "addProofIfPreferred compare p pool = Inr (added, conflictingProofs, pool')"
  shows "unique_outputs pool'"
proof -
  from assms(2) obtain added1 cs1 pool1
    where first: "addProofIfNoConflict compare p pool = Inr (added1, cs1, pool1)"
    by (cases "addProofIfNoConflict compare p pool") (auto simp: addProofIfPreferred_def)
  have u1: "unique_outputs pool1"
    using assms(1) first by (rule addProofIfNoConflict_unique)
  let ?pool2 = "fold (\<lambda>conflictingProof p. snd (removeProof conflictingProof p)) cs1 pool1"
  have u2: "unique_outputs ?pool2"
    using u1 by (rule fold_removeProof_unique)
  show ?thesis
  proof (cases "added1 = REJECTED \<and> cs1 \<noteq> [] \<and> compare p (hd cs1)")
    case True
    then obtain best rest where cs1: "cs1 = best # rest" and better: "compare p best"
      by (cases cs1) auto
    from assms(2) first True cs1 better obtain added2 cs2
      where "addProofIfNoConflict compare p ?pool2 = Inr (added2, cs2, pool')"
      by (auto simp: addProofIfPreferred_def Let_def split: sum.splits if_splits)
    with u2 show ?thesis by (rule addProofIfNoConflict_unique)
  next
    case False
    with assms(2) first have "pool' = pool1"
      by (auto simp: addProofIfPreferred_def Let_def split: list.splits if_splits)
    with u1 show ?thesis by simp
  qed
qed

lemma call_unique:
  "unique_outputs pool \<Longrightarrow> call compare c pool = Inr pool' \<Longrightarrow> unique_outputs pool'"
proof (cases c)
  case (AddProofIfNoConflict p)
  assume u: "unique_outputs pool" and r: "call compare c pool = Inr pool'"
  from r AddProofIfNoConflict obtain a cs
    where "addProofIfNoConflict compare p pool = Inr (a, cs, pool')"
    by (cases "addProofIfNoConflict compare p pool") auto
  with u show ?thesis by (rule addProofIfNoConflict_unique)
next
  case (AddProofIfPreferred p)
  assume u: "unique_outputs pool" and r: "call compare c pool = Inr pool'"
  from r AddProofIfPreferred obtain a cs
    where "addProofIfPreferred compare p pool = Inr (a, cs, pool')"
    by (cases "addProofIfPreferred compare p pool") auto
  with u show ?thesis by (rule addProofIfPreferred_unique)
next
  case (RemoveProof p)
  assume u: "unique_outputs pool" and r: "call compare c pool = Inr pool'"
  with RemoveProof removeProof_unique [OF u, of p] show ?thesis by auto
qed

lemma run_unique:
  "unique_outputs pool \<Longrightarrow> run compare cs pool = Inr pool' \<Longrightarrow> unique_outputs pool'"
proof (induction cs arbitrary: pool)
  case Nil
  then show ?case by simp
next
  case (Cons c cs)
  from Cons.prems(2) obtain mid where mid: "call compare c pool = Inr mid"
    and rest: "run compare cs mid = Inr pool'"
    by (cases "call compare c pool") simp_all
  from Cons.prems(1) mid have "unique_outputs mid" by (rule call_unique)
  then show ?case using rest by (rule Cons.IH)
qed

text \<open>
  Claim C1. After any sequence of \<open>addProofIfNoConflict\<close>, \<open>addProofIfPreferred\<close> and
  \<open>removeProof\<close> calls from the empty pool (each call having returned), no two entries of
  the pool have the same outpoint: two entries with the same outpoint are the same entry,
  so an outpoint is mapped to at most one proof. Every prefix of a sequence is a sequence,
  so this holds at every point between calls.
\<close>

theorem pool_outputs_unique:
  assumes "run compare calls [] = Inr pool"
  shows "unique_outputs pool \<and>
    (\<forall>e1\<in>set pool. \<forall>e2\<in>set pool. getUTXO e1 = getUTXO e2 \<longrightarrow> e1 = e2) \<and>
    (\<forall>outpoint a b. getProof_outpoint outpoint pool = Some a \<longrightarrow>
        (\<exists>e\<in>set pool. getUTXO e = outpoint \<and> entry_proof e = b) \<longrightarrow> a = b)"
proof -
  have "unique_outputs []" by (simp add: unique_outputs_def)
  then have u: "unique_outputs pool" using assms by (rule run_unique)
  then have inj: "inj_on getUTXO (set pool)"
    by (simp add: unique_outputs_def distinct_map)
  have same: "\<forall>e1\<in>set pool. \<forall>e2\<in>set pool. getUTXO e1 = getUTXO e2 \<longrightarrow> e1 = e2"
    using inj by (auto dest: inj_onD)
  have one: "\<forall>outpoint a b. getProof_outpoint outpoint pool = Some a \<longrightarrow>
      (\<exists>e\<in>set pool. getUTXO e = outpoint \<and> entry_proof e = b) \<longrightarrow> a = b"
  proof (intro allI impI)
    fix outpoint a b
    assume "getProof_outpoint outpoint pool = Some a"
    then obtain e1 where f: "find_utxo outpoint pool = Some e1" and a: "a = entry_proof e1"
      by (auto simp: getProof_outpoint_def)
    assume "\<exists>e\<in>set pool. getUTXO e = outpoint \<and> entry_proof e = b"
    then obtain e2 where e2: "e2 \<in> set pool" "getUTXO e2 = outpoint" "entry_proof e2 = b"
      by blast
    from find_utxo_SomeD [OF f] have "e1 \<in> set pool" "getUTXO e1 = outpoint" by simp_all
    with e2 same have "e1 = e2" by blast
    with a e2 show "a = b" by simp
  qed
  from u same one show ?thesis by (intro conjI)
qed

theorem pool_outputs_unique_witness:
  "run lowestIdFirst
     [AddProofIfNoConflict (Proof 3 [(7, 0)]), AddProofIfNoConflict (Proof 4 [(8, 0)]),
      AddProofIfPreferred (Proof 2 [(7, 0), (9, 0)]), RemoveProof (Proof 4 [(8, 0)])] []
     = Inr [ProofPoolEntry 0 (Proof 2 [(7, 0), (9, 0)]), ProofPoolEntry 1 (Proof 2 [(7, 0), (9, 0)])] \<and>
   unique_outputs
     [ProofPoolEntry 0 (Proof 2 [(7, 0), (9, 0)]), ProofPoolEntry 1 (Proof 2 [(7, 0), (9, 0)])]"
proof -
  have r: "run lowestIdFirst
     [AddProofIfNoConflict (Proof 3 [(7, 0)]), AddProofIfNoConflict (Proof 4 [(8, 0)]),
      AddProofIfPreferred (Proof 2 [(7, 0), (9, 0)]), RemoveProof (Proof 4 [(8, 0)])] []
     = Inr [ProofPoolEntry 0 (Proof 2 [(7, 0), (9, 0)]), ProofPoolEntry 1 (Proof 2 [(7, 0), (9, 0)])]"
    by code_simp
  from pool_outputs_unique [OF r] have "unique_outputs
     [ProofPoolEntry 0 (Proof 2 [(7, 0), (9, 0)]), ProofPoolEntry 1 (Proof 2 [(7, 0), (9, 0)])]"
    by (rule conjunct1)
  with r show ?thesis by (intro conjI)
qed

subsection \<open>The conflict set\<close>

lemma set_insert_subset: "set (set_insert compare x xs) \<subseteq> insert x (set xs)"
  by (induction xs) auto

lemma set_insert_keeps: "set xs \<subseteq> set (set_insert compare x xs)"
  by (induction xs) auto

lemma set_insert_nonempty: "set_insert compare x xs \<noteq> []"
  by (cases xs) auto

lemma set_insert_member:
  "strict_total_order compare \<Longrightarrow> x \<in> set (set_insert compare x xs)"
proof (induction xs)
  case Nil
  then show ?case by simp
next
  case (Cons y ys)
  show ?case
  proof (cases "y = x")
    case True
    then show ?thesis by simp
  next
    case False
    with Cons.prems have "compare y x \<or> compare x y"
      unfolding strict_total_order_def by blast
    with Cons show ?thesis by auto
  qed
qed

lemma set_insert_sorted:
  assumes "strict_total_order compare"
  shows "sorted_wrt compare xs \<Longrightarrow> sorted_wrt compare (set_insert compare x xs)"
proof (induction xs)
  case Nil
  then show ?case by simp
next
  case (Cons y ys)
  from assms have trans: "\<And>a b c. compare a b \<Longrightarrow> compare b c \<Longrightarrow> compare a c"
    unfolding strict_total_order_def by blast
  from Cons.prems have y: "\<forall>z\<in>set ys. compare y z" and ys: "sorted_wrt compare ys"
    by simp_all
  show ?case
  proof (cases "compare y x")
    case True
    have "\<forall>z\<in>set (set_insert compare x ys). compare y z"
      using set_insert_subset [of compare x ys] y True by auto
    with True Cons.IH [OF ys] show ?thesis by simp
  next
    case False
    show ?thesis
    proof (cases "compare x y")
      case True
      with y trans have "\<forall>z\<in>set ys. compare x z" by blast
      with True False Cons.prems show ?thesis by simp
    next
      case nope: False
      with False Cons.prems show ?thesis by simp
    qed
  qed
qed

lemma sorted_wrt_head_first:
  assumes "strict_total_order compare" and "sorted_wrt compare (best # rest)"
    and "b \<in> set (best # rest)" and "compare b a"
  shows "\<not> compare a best"
proof
  assume ab: "compare a best"
  from assms(1) have trans: "\<And>a b c. compare a b \<Longrightarrow> compare b c \<Longrightarrow> compare a c"
    and irrefl: "\<And>a. \<not> compare a a"
    unfolding strict_total_order_def by blast+
  from assms(2,3) have "best = b \<or> compare best b" by auto
  then have "compare best a"
    using assms(4) trans by blast
  with ab trans have "compare a a" by blast
  with irrefl show False by blast
qed

lemma sorted_wrt_distinct:
  "strict_total_order compare \<Longrightarrow> sorted_wrt compare xs \<Longrightarrow> distinct xs"
proof (induction xs)
  case Nil
  then show ?case by simp
next
  case (Cons y ys)
  from Cons.prems(1) have "\<not> compare y y"
    unfolding strict_total_order_def by blast
  with Cons show ?case by auto
qed

lemma lowestIdFirst_order: "strict_total_order lowestIdFirst"
  unfolding strict_total_order_def lowestIdFirst_def
proof (intro conjI allI impI)
  fix a b :: Proof
  assume "a \<noteq> b"
  then have "(getId a, getStakes a) \<noteq> (getId b, getStakes b)"
    by (cases a; cases b) simp
  then show "(getId a, getStakes a) < (getId b, getStakes b) \<or>
             (getId b, getStakes b) < (getId a, getStakes a)"
    by (rule linorder_class.neqE) blast+
qed (blast intro: less_trans)+

subsection \<open>The attach loop\<close>

lemma find_utxo_append:
  "find_utxo k (xs @ ys) = (case find_utxo k xs of Some e \<Rightarrow> Some e | None \<Rightarrow> find_utxo k ys)"
  unfolding find_utxo_def by (induction xs) auto

lemma attach_step_cases:
  "attach_step compare p i (pool, cs) =
     (case find_utxo (getStakes p ! i) pool of
        None \<Rightarrow> (pool @ [ProofPoolEntry i p], cs)
      | Some e \<Rightarrow> (pool, set_insert compare (entry_proof e) cs))"
  by (simp add: attach_step_def emplace_def Let_def getUTXO_def split: option.splits)

lemma fold_upt_Suc: "fold f [0..<Suc n] st = f n (fold f [0..<n] st)"
  by simp

lemma nth_in_take: "i < n \<Longrightarrow> n \<le> length xs \<Longrightarrow> xs ! i \<in> set (take n xs)"
  by (auto simp: in_set_conv_nth intro!: exI [of _ i])

lemma ex_less_SucI: "\<exists>j<n. Q j \<Longrightarrow> \<exists>j<Suc n. Q j"
  using less_SucI by blast

text \<open>
  The state after the first \<open>n\<close> rounds of the loop, started on pool \<open>P\<close>: the pool is
  \<open>P\<close> followed by the entries inserted for the proof.
\<close>

lemma attach_prefix:
  assumes "n \<le> length (getStakes p)"
  shows "\<exists>new cs. fold (attach_step compare p) [0..<n] (P, []) = (P @ new, cs) \<and>
     (\<forall>e\<in>set new. entry_proof e = p \<and> utxoIndex e < n \<and> getUTXO e \<notin> getUTXO ` set P) \<and>
     distinct (map getUTXO new) \<and>
     (\<forall>j<n. getStakes p ! j \<in> getUTXO ` set (P @ new)) \<and>
     (\<forall>c\<in>set cs. (\<exists>e\<in>set P. getUTXO e \<in> set (getStakes p) \<and> entry_proof e = c) \<or>
        (\<exists>j<n. getStakes p ! j \<in> set (take j (getStakes p)) \<and>
                getStakes p ! j \<notin> getUTXO ` set P)) \<and>
     (cs = [] \<longrightarrow> (\<forall>j<n. ProofPoolEntry j p \<in> set new)) \<and>
     (strict_total_order compare \<longrightarrow> sorted_wrt compare cs) \<and>
     (strict_total_order compare \<longrightarrow> unique_outputs P \<longrightarrow>
        (\<forall>e\<in>set P. \<forall>j<n. getUTXO e = getStakes p ! j \<longrightarrow> entry_proof e \<in> set cs))"
  using assms
proof (induction n)
  case 0
  show ?case by (intro exI [of _ "[]"]) simp
next
  case (Suc n)
  let ?S = "getStakes p"
  from Suc.prems have n: "n < length ?S" by simp
  then have "n \<le> length ?S" by simp
  from Suc.IH [OF this] obtain new cs where
    run: "fold (attach_step compare p) [0..<n] (P, []) = (P @ new, cs)" and
    a: "\<forall>e\<in>set new. entry_proof e = p \<and> utxoIndex e < n \<and> getUTXO e \<notin> getUTXO ` set P" and
    f: "distinct (map getUTXO new)" and
    b: "\<forall>j<n. ?S ! j \<in> getUTXO ` set (P @ new)" and
    c: "\<forall>c\<in>set cs. (\<exists>e\<in>set P. getUTXO e \<in> set ?S \<and> entry_proof e = c) \<or>
        (\<exists>j<n. ?S ! j \<in> set (take j ?S) \<and> ?S ! j \<notin> getUTXO ` set P)" and
    d: "cs = [] \<longrightarrow> (\<forall>j<n. ProofPoolEntry j p \<in> set new)" and
    g: "strict_total_order compare \<longrightarrow> sorted_wrt compare cs" and
    e: "strict_total_order compare \<longrightarrow> unique_outputs P \<longrightarrow>
        (\<forall>e\<in>set P. \<forall>j<n. getUTXO e = ?S ! j \<longrightarrow> entry_proof e \<in> set cs)"
    by (elim exE conjE)
  have step: "fold (attach_step compare p) [0..<Suc n] (P, []) =
      attach_step compare p n (P @ new, cs)"
    by (simp only: fold_upt_Suc run)
  show ?case
  proof (cases "find_utxo (?S ! n) (P @ new)")
    case None
    let ?E = "ProofPoolEntry n p"
    from None have fresh: "?S ! n \<notin> getUTXO ` set (P @ new)"
      using find_utxo_None [of "?S ! n" "P @ new"] by blast
    have key: "getUTXO ?E = ?S ! n" by (simp add: getUTXO_def)
    have res: "fold (attach_step compare p) [0..<Suc n] (P, []) = (P @ (new @ [?E]), cs)"
      unfolding step by (simp add: attach_step_cases None)
    have a': "\<forall>e\<in>set (new @ [?E]).
        entry_proof e = p \<and> utxoIndex e < Suc n \<and> getUTXO e \<notin> getUTXO ` set P"
      using a fresh key by (auto simp: less_Suc_eq)
    have f': "distinct (map getUTXO (new @ [?E]))"
      using f fresh key by auto
    have b': "\<forall>j<Suc n. ?S ! j \<in> getUTXO ` set (P @ (new @ [?E]))"
    proof (intro allI impI)
      fix j assume "j < Suc n"
      then consider "j < n" | "j = n" by linarith
      then show "?S ! j \<in> getUTXO ` set (P @ (new @ [?E]))"
      proof cases
        case 1
        with b have "?S ! j \<in> getUTXO ` set (P @ new)" by blast
        then show ?thesis by auto
      next
        case 2
        with key show ?thesis by (simp add: image_iff)
      qed
    qed
    have c': "\<forall>c\<in>set cs. (\<exists>e\<in>set P. getUTXO e \<in> set ?S \<and> entry_proof e = c) \<or>
        (\<exists>j<Suc n. ?S ! j \<in> set (take j ?S) \<and> ?S ! j \<notin> getUTXO ` set P)"
    proof
      fix x assume "x \<in> set cs"
      with c have "(\<exists>e\<in>set P. getUTXO e \<in> set ?S \<and> entry_proof e = x) \<or>
        (\<exists>j<n. ?S ! j \<in> set (take j ?S) \<and> ?S ! j \<notin> getUTXO ` set P)" by (rule bspec)
      then show "(\<exists>e\<in>set P. getUTXO e \<in> set ?S \<and> entry_proof e = x) \<or>
        (\<exists>j<Suc n. ?S ! j \<in> set (take j ?S) \<and> ?S ! j \<notin> getUTXO ` set P)"
        using ex_less_SucI [of n "\<lambda>j. ?S ! j \<in> set (take j ?S) \<and> ?S ! j \<notin> getUTXO ` set P"]
        by blast
    qed
    have d': "cs = [] \<longrightarrow> (\<forall>j<Suc n. ProofPoolEntry j p \<in> set (new @ [?E]))"
      using d by (auto simp: less_Suc_eq)
    have e': "strict_total_order compare \<longrightarrow> unique_outputs P \<longrightarrow>
        (\<forall>e\<in>set P. \<forall>j<Suc n. getUTXO e = ?S ! j \<longrightarrow> entry_proof e \<in> set cs)"
    proof (intro impI ballI allI)
      fix x j
      assume o: "strict_total_order compare" and u: "unique_outputs P"
        and x: "x \<in> set P" and j: "j < Suc n" and k: "getUTXO x = ?S ! j"
      from x have "getUTXO x \<in> getUTXO ` set (P @ new)" by simp
      with k fresh have "j \<noteq> n" by metis
      with j have "j < n" by simp
      with e o u x k show "entry_proof x \<in> set cs" by blast
    qed
    show ?thesis
      by (intro exI [of _ "new @ [?E]"] exI [of _ cs] conjI res a' f' b' c' d' g e')
  next
    case (Some e')
    from find_utxo_SomeD [OF Some] have mem: "e' \<in> set (P @ new)" and key: "getUTXO e' = ?S ! n"
      by simp_all
    let ?cs = "set_insert compare (entry_proof e') cs"
    have res: "fold (attach_step compare p) [0..<Suc n] (P, []) = (P @ new, ?cs)"
      unfolding step by (simp add: attach_step_cases Some)
    have a': "\<forall>e\<in>set new.
        entry_proof e = p \<and> utxoIndex e < Suc n \<and> getUTXO e \<notin> getUTXO ` set P"
      using a by (auto simp: less_Suc_eq)
    have b': "\<forall>j<Suc n. ?S ! j \<in> getUTXO ` set (P @ new)"
    proof (intro allI impI)
      fix j assume "j < Suc n"
      then consider "j < n" | "j = n" by linarith
      then show "?S ! j \<in> getUTXO ` set (P @ new)"
      proof cases
        case 1
        with b show ?thesis by blast
      next
        case 2
        with key mem show ?thesis by (metis image_eqI)
      qed
    qed
    have new_case: "(\<exists>e\<in>set P. getUTXO e \<in> set ?S \<and> entry_proof e = entry_proof e') \<or>
        (\<exists>j<Suc n. ?S ! j \<in> set (take j ?S) \<and> ?S ! j \<notin> getUTXO ` set P)"
    proof (cases "e' \<in> set P")
      case True
      moreover from key n have "getUTXO e' \<in> set ?S" by simp
      ultimately show ?thesis by blast
    next
      case False
      with mem have in_new: "e' \<in> set new" by simp
      with a have p: "entry_proof e' = p" and i: "utxoIndex e' < n"
        and out: "getUTXO e' \<notin> getUTXO ` set P" by blast+
      from p have "getUTXO e' = ?S ! utxoIndex e'" by (simp add: getUTXO_def)
      with key have same: "?S ! utxoIndex e' = ?S ! n" by simp
      from i n have "?S ! utxoIndex e' \<in> set (take n ?S)"
        by (simp add: nth_in_take)
      with same have "?S ! n \<in> set (take n ?S)" by simp
      moreover from out key have "?S ! n \<notin> getUTXO ` set P" by simp
      ultimately show ?thesis by blast
    qed
    have c': "\<forall>c\<in>set ?cs. (\<exists>e\<in>set P. getUTXO e \<in> set ?S \<and> entry_proof e = c) \<or>
        (\<exists>j<Suc n. ?S ! j \<in> set (take j ?S) \<and> ?S ! j \<notin> getUTXO ` set P)"
    proof
      fix x assume "x \<in> set ?cs"
      with set_insert_subset [of compare "entry_proof e'" cs]
      have "x = entry_proof e' \<or> x \<in> set cs" by blast
      then show "(\<exists>e\<in>set P. getUTXO e \<in> set ?S \<and> entry_proof e = x) \<or>
        (\<exists>j<Suc n. ?S ! j \<in> set (take j ?S) \<and> ?S ! j \<notin> getUTXO ` set P)"
      proof
        assume "x = entry_proof e'"
        with new_case show ?thesis by simp
      next
        assume "x \<in> set cs"
        with c have "(\<exists>e\<in>set P. getUTXO e \<in> set ?S \<and> entry_proof e = x) \<or>
          (\<exists>j<n. ?S ! j \<in> set (take j ?S) \<and> ?S ! j \<notin> getUTXO ` set P)" by (rule bspec)
        then show ?thesis
          using ex_less_SucI [of n "\<lambda>j. ?S ! j \<in> set (take j ?S) \<and> ?S ! j \<notin> getUTXO ` set P"]
          by blast
      qed
    qed
    have d': "?cs = [] \<longrightarrow> (\<forall>j<Suc n. ProofPoolEntry j p \<in> set new)"
      by (simp add: set_insert_nonempty)
    have g': "strict_total_order compare \<longrightarrow> sorted_wrt compare ?cs"
      using g set_insert_sorted by blast
    have e': "strict_total_order compare \<longrightarrow> unique_outputs P \<longrightarrow>
        (\<forall>e\<in>set P. \<forall>j<Suc n. getUTXO e = ?S ! j \<longrightarrow> entry_proof e \<in> set ?cs)"
    proof (intro impI ballI allI)
      fix x j
      assume o: "strict_total_order compare" and u: "unique_outputs P"
        and x: "x \<in> set P" and j: "j < Suc n" and k: "getUTXO x = ?S ! j"
      from j consider "j < n" | "j = n" by linarith
      then show "entry_proof x \<in> set ?cs"
      proof cases
        case 1
        with e o u x k have "entry_proof x \<in> set cs" by blast
        with set_insert_keeps [of cs compare "entry_proof e'"] show ?thesis by blast
      next
        case 2
        from x have "getUTXO x \<in> getUTXO ` set P" by (rule imageI)
        with k 2 have "find_utxo (?S ! n) P \<noteq> None"
          by (simp add: find_utxo_None)
        then obtain y where y: "find_utxo (?S ! n) P = Some y" by blast
        with Some have "e' = y" by (simp add: find_utxo_append)
        with find_utxo_SomeD [OF y] have "e' \<in> set P" "getUTXO e' = ?S ! n" by simp_all
        moreover from u have "inj_on getUTXO (set P)"
          by (simp add: unique_outputs_def distinct_map)
        ultimately have "e' = x" using x k 2 by (metis inj_onD)
        with set_insert_member [OF o, of "entry_proof e'" cs] show ?thesis by simp
      qed
    qed
    show ?thesis
      by (intro exI [of _ new] exI [of _ ?cs] conjI res a' f b' c' d' g' e')
  qed
qed

subsection \<open>The cleanup loop\<close>

lemma remove1_by_key:
  "distinct (map f xs) \<Longrightarrow> x \<in> set xs \<Longrightarrow> remove1 x xs = filter (\<lambda>y. f y \<noteq> f x) xs"
proof (induction xs)
  case Nil
  then show ?case by simp
next
  case (Cons y ys)
  show ?case
  proof (cases "x = y")
    case True
    from Cons.prems(1) have "f y \<notin> f ` set ys" by simp
    then have "\<forall>z\<in>set ys. f z \<noteq> f y" by (metis imageI)
    then have "filter (\<lambda>z. f z \<noteq> f y) ys = ys" by (simp add: filter_id_conv)
    with True show ?thesis by simp
  next
    case False
    with Cons.prems have "x \<in> set ys" and "f y \<noteq> f x" by auto
    with False Cons show ?thesis by simp
  qed
qed

lemma cleanup_step:
  assumes A1: "\<forall>e\<in>set P. getId (entry_proof e) \<noteq> proofid"
    and A2: "\<forall>e\<in>set new. getId (entry_proof e) = proofid"
    and A3: "\<forall>e\<in>set new. getUTXO e \<notin> getUTXO ` set P"
    and A4: "distinct (map getUTXO new)"
    and found: "find_utxo s (P @ new) = Some e"
  shows "(if getId (entry_proof e) = proofid then erase e (P @ new) else P @ new) =
    P @ filter (\<lambda>x. getUTXO x \<noteq> s) new"
proof -
  from find_utxo_SomeD [OF found] have mem: "e \<in> set P \<or> e \<in> set new" and key: "getUTXO e = s"
    by simp_all
  show ?thesis
  proof (cases "getId (entry_proof e) = proofid")
    case True
    with A1 have out: "e \<notin> set P" by blast
    with mem have inn: "e \<in> set new" by blast
    from out have "erase e (P @ new) = P @ remove1 e new"
      by (simp add: erase_def remove1_append)
    also from A4 inn have "remove1 e new = filter (\<lambda>x. getUTXO x \<noteq> getUTXO e) new"
      by (rule remove1_by_key)
    finally show ?thesis using True key by simp
  next
    case False
    with A2 have "e \<notin> set new" by blast
    with mem have "e \<in> set P" by blast
    then have "getUTXO e \<in> getUTXO ` set P" by (rule imageI)
    with A3 key have "\<forall>x\<in>set new. getUTXO x \<noteq> s" by metis
    then have "filter (\<lambda>x. getUTXO x \<noteq> s) new = new" by (simp add: filter_id_conv)
    with False show ?thesis by simp
  qed
qed

lemma cleanup_shape:
  assumes A1: "\<forall>e\<in>set P. getId (entry_proof e) \<noteq> proofid"
  shows "\<forall>e\<in>set new. getId (entry_proof e) = proofid \<Longrightarrow>
    \<forall>e\<in>set new. getUTXO e \<notin> getUTXO ` set P \<Longrightarrow>
    distinct (map getUTXO new) \<Longrightarrow>
    cleanup proofid ss (P @ new) = Inr r \<Longrightarrow>
    r = P @ filter (\<lambda>e. getUTXO e \<notin> set ss) new"
proof (induction ss arbitrary: new)
  case Nil
  then show ?case by simp
next
  case (Cons s ss)
  from Cons.prems(4) obtain e where found: "find_utxo s (P @ new) = Some e"
    by (cases "find_utxo s (P @ new)") simp_all
  let ?new = "filter (\<lambda>x. getUTXO x \<noteq> s) new"
  from cleanup_step [OF A1 Cons.prems(1,2,3) found]
  have next_pool: "(if getId (entry_proof e) = proofid then erase e (P @ new) else P @ new) = P @ ?new" .
  from Cons.prems(4) found have "cleanup proofid ss (P @ ?new) = Inr r"
    by (simp add: next_pool)
  moreover have "\<forall>e\<in>set ?new. getId (entry_proof e) = proofid"
    using Cons.prems(1) by simp
  moreover have "\<forall>e\<in>set ?new. getUTXO e \<notin> getUTXO ` set P"
    using Cons.prems(2) by simp
  moreover have "distinct (map getUTXO ?new)"
    using Cons.prems(3) by (rule distinct_map_filter)
  ultimately have "r = P @ filter (\<lambda>e. getUTXO e \<notin> set ss) ?new"
    using Cons.IH by blast
  also have "filter (\<lambda>e. getUTXO e \<notin> set ss) ?new = filter (\<lambda>e. getUTXO e \<notin> set (s # ss)) new"
    by (simp add: conj_commute)
  finally show ?case .
qed

lemma cleanup_success:
  assumes A1: "\<forall>e\<in>set P. getId (entry_proof e) \<noteq> proofid"
  shows "\<forall>e\<in>set new. getId (entry_proof e) = proofid \<Longrightarrow>
    \<forall>e\<in>set new. getUTXO e \<notin> getUTXO ` set P \<Longrightarrow>
    distinct (map getUTXO new) \<Longrightarrow>
    distinct ss \<Longrightarrow>
    \<forall>s\<in>set ss. s \<in> getUTXO ` set (P @ new) \<Longrightarrow>
    cleanup proofid ss (P @ new) = Inr (P @ filter (\<lambda>e. getUTXO e \<notin> set ss) new)"
proof (induction ss arbitrary: new)
  case Nil
  then show ?case by simp
next
  case (Cons s ss)
  from Cons.prems(5) have "s \<in> getUTXO ` set (P @ new)" by simp
  then have "find_utxo s (P @ new) \<noteq> None" by (simp only: find_utxo_None) simp
  then obtain e where found: "find_utxo s (P @ new) = Some e" by blast
  let ?new = "filter (\<lambda>x. getUTXO x \<noteq> s) new"
  from cleanup_step [OF A1 Cons.prems(1,2,3) found]
  have next_pool: "(if getId (entry_proof e) = proofid then erase e (P @ new) else P @ new) = P @ ?new" .
  have "\<forall>e\<in>set ?new. getId (entry_proof e) = proofid"
    using Cons.prems(1) by simp
  moreover have "\<forall>e\<in>set ?new. getUTXO e \<notin> getUTXO ` set P"
    using Cons.prems(2) by simp
  moreover have "distinct (map getUTXO ?new)"
    using Cons.prems(3) by (rule distinct_map_filter)
  moreover have "distinct ss" using Cons.prems(4) by simp
  moreover have "\<forall>t\<in>set ss. t \<in> getUTXO ` set (P @ ?new)"
  proof
    fix t assume t: "t \<in> set ss"
    with Cons.prems(4) have "t \<noteq> s" by auto
    moreover from t Cons.prems(5) have "t \<in> getUTXO ` set (P @ new)" by simp
    ultimately show "t \<in> getUTXO ` set (P @ ?new)" by auto
  qed
  ultimately have "cleanup proofid ss (P @ ?new) =
      Inr (P @ filter (\<lambda>e. getUTXO e \<notin> set ss) ?new)"
    by (rule Cons.IH)
  moreover have "filter (\<lambda>e. getUTXO e \<notin> set ss) ?new =
      filter (\<lambda>e. getUTXO e \<notin> set (s # ss)) new"
    by (simp add: conj_commute)
  ultimately show ?case using found next_pool by simp
qed

lemma cleanup_absent_fails:
  "s \<in> set ss \<Longrightarrow> s \<notin> getUTXO ` set pool \<Longrightarrow> cleanup proofid ss pool = Inl AssertionFailed"
proof (induction ss arbitrary: pool)
  case Nil
  then show ?case by simp
next
  case (Cons t ts)
  show ?case
  proof (cases "find_utxo t pool")
    case None
    then show ?thesis by simp
  next
    case (Some e)
    let ?next = "if getId (entry_proof e) = proofid then erase e pool else pool"
    from find_utxo_SomeD [OF Some] have "t \<in> getUTXO ` set pool" by auto
    with Cons.prems(2) have "s \<noteq> t" by blast
    with Cons.prems(1) have "s \<in> set ts" by simp
    moreover have "set ?next \<subseteq> set pool"
      by (simp add: erase_def set_remove1_subset)
    with Cons.prems(2) have "s \<notin> getUTXO ` set ?next" by blast
    ultimately have "cleanup proofid ts ?next = Inl AssertionFailed" by (rule Cons.IH)
    with Some show ?thesis by simp
  qed
qed

lemma cleanup_append:
  "cleanup proofid (xs @ ys) pool =
     (case cleanup proofid xs pool of Inl err \<Rightarrow> Inl err | Inr mid \<Rightarrow> cleanup proofid ys mid)"
  by (induction xs arbitrary: pool) (simp_all split: option.splits)

lemma cleanup_dup_fails:
  assumes A1: "\<forall>e\<in>set P. getId (entry_proof e) \<noteq> proofid"
    and A2: "\<forall>e\<in>set new. getId (entry_proof e) = proofid"
    and A3: "\<forall>e\<in>set new. getUTXO e \<notin> getUTXO ` set P"
    and A4: "distinct (map getUTXO new)"
    and j: "j < length ss" and dup: "ss ! j \<in> set (take j ss)"
    and out: "ss ! j \<notin> getUTXO ` set P"
  shows "cleanup proofid ss (P @ new) \<noteq> Inr r"
proof
  assume ok: "cleanup proofid ss (P @ new) = Inr r"
  let ?k = "ss ! j"
  from j have split: "ss = take j ss @ (?k # drop (Suc j) ss)"
    by (simp add: id_take_nth_drop)
  from ok split have "(case cleanup proofid (take j ss) (P @ new) of
      Inl err \<Rightarrow> Inl err | Inr mid \<Rightarrow> cleanup proofid (?k # drop (Suc j) ss) mid) = Inr r"
    by (metis cleanup_append)
  then obtain mid where first: "cleanup proofid (take j ss) (P @ new) = Inr mid"
    and rest: "cleanup proofid (?k # drop (Suc j) ss) mid = Inr r"
    by (cases "cleanup proofid (take j ss) (P @ new)") simp_all
  from cleanup_shape [OF A1 A2 A3 A4 first]
  have mid: "mid = P @ filter (\<lambda>e. getUTXO e \<notin> set (take j ss)) new" .
  have "?k \<notin> getUTXO ` set mid"
    unfolding mid using out dup by auto
  then have "cleanup proofid (?k # drop (Suc j) ss) mid = Inl AssertionFailed"
    by (intro cleanup_absent_fails) simp_all
  with rest show False by simp
qed

lemma distinct_nth_not_in_take:
  "distinct xs \<Longrightarrow> j < length xs \<Longrightarrow> xs ! j \<notin> set (take j xs)"
proof
  assume d: "distinct xs" and j: "j < length xs" and m: "xs ! j \<in> set (take j xs)"
  from j have "xs = take j xs @ (xs ! j # drop (Suc j) xs)"
    by (simp add: id_take_nth_drop)
  with d have "distinct (take j xs @ (xs ! j # drop (Suc j) xs))" by simp
  with m show False by simp
qed

subsection \<open>Outcomes of \<open>addProofIfNoConflict\<close>\<close>

lemma find_proofid_None:
  "find_proofid proofid pool = None \<longleftrightarrow> (\<forall>e\<in>set pool. getId (entry_proof e) \<noteq> proofid)"
  by (simp add: find_proofid_def find_None_iff2)

lemma addProofIfNoConflict_fresh:
  assumes "find_proofid (getId p) pool = None"
    and "attach_utxos compare p pool = (pool1, cs)"
  shows "addProofIfNoConflict compare p pool =
    (if cs \<noteq> [] then
       (case cleanup (getId p) (getStakes p) pool1 of
          Inl err \<Rightarrow> Inl err
        | Inr pool2 \<Rightarrow> Inr (REJECTED, cs, pool2))
     else Inr (SUCCEED, cs, pool1))"
  using assms by (simp add: addProofIfNoConflict_def)

lemma entry_key_in_stakes:
  "entry_proof e = p \<Longrightarrow> utxoIndex e < length (getStakes p) \<Longrightarrow> getUTXO e \<in> set (getStakes p)"
  by (simp add: getUTXO_def)

text \<open>What a returned \<open>REJECTED\<close> tells.\<close>

lemma rejected_facts:
  assumes rej: "addProofIfNoConflict compare p pool = Inr (REJECTED, cs, pool')"
  shows "pool' = pool"
    and "find_proofid (getId p) pool = None"
    and "cs \<noteq> []"
    and "\<forall>c\<in>set cs. \<exists>e\<in>set pool. getUTXO e \<in> set (getStakes p) \<and> entry_proof e = c"
    and "strict_total_order compare \<longrightarrow> sorted_wrt compare cs"
    and "strict_total_order compare \<longrightarrow> unique_outputs pool \<longrightarrow>
           (\<forall>e\<in>set pool. getUTXO e \<in> set (getStakes p) \<longrightarrow> entry_proof e \<in> set cs)"
proof -
  let ?S = "getStakes p"
  show fresh: "find_proofid (getId p) pool = None"
    using rej by (cases "find_proofid (getId p) pool") (simp_all add: addProofIfNoConflict_def)
  then have A1: "\<forall>e\<in>set pool. getId (entry_proof e) \<noteq> getId p"
    by (simp only: find_proofid_None)
  from attach_prefix [OF le_refl, where p = p and compare = compare and P = pool] obtain new cs1 where
    run: "attach_utxos compare p pool = (pool @ new, cs1)" and
    a: "\<forall>e\<in>set new. entry_proof e = p \<and> utxoIndex e < length ?S \<and>
          getUTXO e \<notin> getUTXO ` set pool" and
    f: "distinct (map getUTXO new)" and
    c: "\<forall>c\<in>set cs1. (\<exists>e\<in>set pool. getUTXO e \<in> set ?S \<and> entry_proof e = c) \<or>
        (\<exists>j<length ?S. ?S ! j \<in> set (take j ?S) \<and> ?S ! j \<notin> getUTXO ` set pool)" and
    g: "strict_total_order compare \<longrightarrow> sorted_wrt compare cs1" and
    e: "strict_total_order compare \<longrightarrow> unique_outputs pool \<longrightarrow>
        (\<forall>e\<in>set pool. \<forall>j<length ?S. getUTXO e = ?S ! j \<longrightarrow> entry_proof e \<in> set cs1)"
    unfolding attach_utxos_def by (elim exE conjE)
  note unfolded = addProofIfNoConflict_fresh [OF fresh run]
  from rej unfolded have nonempty: "cs1 \<noteq> []" by (cases "cs1 = []") simp_all
  with rej unfolded have cl: "cleanup (getId p) ?S (pool @ new) = Inr pool'" and same: "cs1 = cs"
    by (simp_all split: sum.splits)
  from nonempty same show "cs \<noteq> []" by simp
  from a have A2: "\<forall>e\<in>set new. getId (entry_proof e) = getId p" by simp
  from a have A3: "\<forall>e\<in>set new. getUTXO e \<notin> getUTXO ` set pool" by simp
  from cleanup_shape [OF A1 A2 A3 f cl]
  have "pool' = pool @ filter (\<lambda>e. getUTXO e \<notin> set ?S) new" .
  moreover have "filter (\<lambda>e. getUTXO e \<notin> set ?S) new = []"
    using a by (simp add: filter_empty_conv entry_key_in_stakes)
  ultimately show "pool' = pool" by simp
  have nodup: "\<not> (\<exists>j<length ?S. ?S ! j \<in> set (take j ?S) \<and> ?S ! j \<notin> getUTXO ` set pool)"
  proof
    assume "\<exists>j<length ?S. ?S ! j \<in> set (take j ?S) \<and> ?S ! j \<notin> getUTXO ` set pool"
    then obtain j where "j < length ?S" "?S ! j \<in> set (take j ?S)"
      "?S ! j \<notin> getUTXO ` set pool" by blast
    from cleanup_dup_fails [OF A1 A2 A3 f this] cl show False by blast
  qed
  with c same show "\<forall>c\<in>set cs. \<exists>e\<in>set pool. getUTXO e \<in> set ?S \<and> entry_proof e = c"
    by blast
  from g same show "strict_total_order compare \<longrightarrow> sorted_wrt compare cs" by simp
  show "strict_total_order compare \<longrightarrow> unique_outputs pool \<longrightarrow>
           (\<forall>e\<in>set pool. getUTXO e \<in> set ?S \<longrightarrow> entry_proof e \<in> set cs)"
  proof (intro impI ballI)
    fix x
    assume o: "strict_total_order compare" and u: "unique_outputs pool"
      and x: "x \<in> set pool" and k: "getUTXO x \<in> set ?S"
    from k obtain j where "j < length ?S" "?S ! j = getUTXO x"
      by (auto simp: in_set_conv_nth)
    with e o u x have "entry_proof x \<in> set cs1" by metis
    with same show "entry_proof x \<in> set cs" by simp
  qed
qed

text \<open>A proof with distinct stakes, none of them claimed in the pool, is added.\<close>

lemma add_succeeds:
  assumes fresh: "find_proofid (getId p) pool = None"
    and free: "\<forall>e\<in>set pool. getUTXO e \<notin> set (getStakes p)"
    and dist: "distinct (getStakes p)"
  shows "\<exists>new. addProofIfNoConflict compare p pool = Inr (SUCCEED, [], pool @ new) \<and>
      (\<forall>e\<in>set new. entry_proof e = p) \<and>
      (\<forall>j<length (getStakes p). ProofPoolEntry j p \<in> set new)"
proof -
  let ?S = "getStakes p"
  from attach_prefix [OF le_refl, where p = p and compare = compare and P = pool] obtain new cs where
    run: "attach_utxos compare p pool = (pool @ new, cs)" and
    a: "\<forall>e\<in>set new. entry_proof e = p \<and> utxoIndex e < length ?S \<and>
          getUTXO e \<notin> getUTXO ` set pool" and
    c: "\<forall>c\<in>set cs. (\<exists>e\<in>set pool. getUTXO e \<in> set ?S \<and> entry_proof e = c) \<or>
        (\<exists>j<length ?S. ?S ! j \<in> set (take j ?S) \<and> ?S ! j \<notin> getUTXO ` set pool)" and
    d: "cs = [] \<longrightarrow> (\<forall>j<length ?S. ProofPoolEntry j p \<in> set new)"
    unfolding attach_utxos_def by (elim exE conjE)
  have empty: "cs = []"
  proof (rule ccontr)
    assume "cs \<noteq> []"
    then obtain x where "x \<in> set cs" by (cases cs) auto
    with c have "(\<exists>e\<in>set pool. getUTXO e \<in> set ?S \<and> entry_proof e = x) \<or>
        (\<exists>j<length ?S. ?S ! j \<in> set (take j ?S) \<and> ?S ! j \<notin> getUTXO ` set pool)"
      by (rule bspec)
    then show False
    proof
      assume "\<exists>e\<in>set pool. getUTXO e \<in> set ?S \<and> entry_proof e = x"
      with free show False by blast
    next
      assume "\<exists>j<length ?S. ?S ! j \<in> set (take j ?S) \<and> ?S ! j \<notin> getUTXO ` set pool"
      with distinct_nth_not_in_take [OF dist] show False by blast
    qed
  qed
  with addProofIfNoConflict_fresh [OF fresh run]
  have "addProofIfNoConflict compare p pool = Inr (SUCCEED, [], pool @ new)" by simp
  moreover from a have "\<forall>e\<in>set new. entry_proof e = p" by simp
  moreover from d empty have "\<forall>j<length ?S. ProofPoolEntry j p \<in> set new" by simp
  ultimately show ?thesis by blast
qed

text \<open>A proof with distinct stakes, one of them claimed in the pool, is rejected.\<close>

lemma add_rejects:
  assumes fresh: "find_proofid (getId p) pool = None"
    and dist: "distinct (getStakes p)"
    and held: "x \<in> set pool" "getUTXO x \<in> set (getStakes p)"
  shows "\<exists>cs. addProofIfNoConflict compare p pool = Inr (REJECTED, cs, pool)"
proof -
  let ?S = "getStakes p"
  from fresh have A1: "\<forall>e\<in>set pool. getId (entry_proof e) \<noteq> getId p"
    by (simp only: find_proofid_None)
  from attach_prefix [OF le_refl, where p = p and compare = compare and P = pool] obtain new cs where
    run: "attach_utxos compare p pool = (pool @ new, cs)" and
    a: "\<forall>e\<in>set new. entry_proof e = p \<and> utxoIndex e < length ?S \<and>
          getUTXO e \<notin> getUTXO ` set pool" and
    f: "distinct (map getUTXO new)" and
    b: "\<forall>j<length ?S. ?S ! j \<in> getUTXO ` set (pool @ new)" and
    d: "cs = [] \<longrightarrow> (\<forall>j<length ?S. ProofPoolEntry j p \<in> set new)"
    unfolding attach_utxos_def by (elim exE conjE)
  from held(2) obtain j where j: "j < length ?S" and k: "?S ! j = getUTXO x"
    by (auto simp: in_set_conv_nth)
  have nonempty: "cs \<noteq> []"
  proof
    assume "cs = []"
    with d j have "ProofPoolEntry j p \<in> set new" by simp
    with a have "getUTXO (ProofPoolEntry j p) \<notin> getUTXO ` set pool" by blast
    moreover have "getUTXO (ProofPoolEntry j p) = getUTXO x" by (simp add: getUTXO_def k)
    moreover from held(1) have "getUTXO x \<in> getUTXO ` set pool" by (rule imageI)
    ultimately show False by simp
  qed
  from a have A2: "\<forall>e\<in>set new. getId (entry_proof e) = getId p" by simp
  from a have A3: "\<forall>e\<in>set new. getUTXO e \<notin> getUTXO ` set pool" by simp
  from b have all: "\<forall>s\<in>set ?S. s \<in> getUTXO ` set (pool @ new)"
    by (metis in_set_conv_nth)
  from cleanup_success [OF A1 A2 A3 f dist all]
  have "cleanup (getId p) ?S (pool @ new) = Inr (pool @ filter (\<lambda>e. getUTXO e \<notin> set ?S) new)" .
  moreover have "filter (\<lambda>e. getUTXO e \<notin> set ?S) new = []"
    using a by (simp add: filter_empty_conv entry_key_in_stakes)
  ultimately have "cleanup (getId p) ?S (pool @ new) = Inr pool" by simp
  with addProofIfNoConflict_fresh [OF fresh run] nonempty
  have "addProofIfNoConflict compare p pool = Inr (REJECTED, cs, pool)" by simp
  then show ?thesis ..
qed

lemma fold_removeProof:
  "fold (\<lambda>conflictingProof p. snd (removeProof conflictingProof p)) cs pool =
     filter (\<lambda>e. getId (entry_proof e) \<notin> getId ` set cs) pool"
proof (induction cs arbitrary: pool)
  case Nil
  then show ?case by simp
next
  case (Cons c cs)
  have "snd (removeProof c pool) = filter (\<lambda>e. getId (entry_proof e) \<noteq> getId c) pool"
    by (simp add: removeProof_def erase_proofid_def)
  then show ?case by (simp add: Cons.IH conj_commute)
qed

subsection \<open>Stake indices stay in range\<close>

lemma cleanup_subset: "cleanup proofid ss pool = Inr r \<Longrightarrow> set r \<subseteq> set pool"
proof (induction ss arbitrary: pool)
  case Nil
  then show ?case by simp
next
  case (Cons s ss)
  from Cons.prems obtain e where e: "find_utxo s pool = Some e"
    by (cases "find_utxo s pool") simp_all
  let ?next = "if getId (entry_proof e) = proofid then erase e pool else pool"
  from Cons.prems e have "cleanup proofid ss ?next = Inr r" by simp
  then have "set r \<subseteq> set ?next" by (rule Cons.IH)
  moreover have "set ?next \<subseteq> set pool"
    by (simp add: erase_def set_remove1_subset)
  ultimately show ?case by blast
qed

lemma addProofIfNoConflict_range:
  assumes "indices_in_range pool"
    and "addProofIfNoConflict compare p pool = Inr (added, cs, pool')"
  shows "indices_in_range pool'"
proof (cases "find_proofid (getId p) pool")
  case (Some e)
  with assms show ?thesis by (simp add: addProofIfNoConflict_def)
next
  case None
  from attach_prefix [OF le_refl, where p = p and compare = compare and P = pool]
  obtain new cs1 where
    run: "attach_utxos compare p pool = (pool @ new, cs1)" and
    a: "\<forall>e\<in>set new. entry_proof e = p \<and> utxoIndex e < length (getStakes p) \<and>
          getUTXO e \<notin> getUTXO ` set pool"
    unfolding attach_utxos_def by (elim exE conjE)
  from a have "\<forall>e\<in>set new. utxoIndex e < length (getStakes (entry_proof e))"
    by simp
  with assms(1) have grown: "indices_in_range (pool @ new)"
    by (auto simp: indices_in_range_def list_all_iff)
  note unfolded = addProofIfNoConflict_fresh [OF None run]
  show ?thesis
  proof (cases "cs1 = []")
    case True
    with assms(2) unfolded grown show ?thesis by simp
  next
    case False
    with assms(2) unfolded have "cleanup (getId p) (getStakes p) (pool @ new) = Inr pool'"
      by (simp split: sum.splits)
    then have "set pool' \<subseteq> set (pool @ new)" by (rule cleanup_subset)
    with grown show ?thesis
      unfolding indices_in_range_def list_all_iff by blast
  qed
qed

lemma fold_removeProof_range:
  "indices_in_range pool \<Longrightarrow>
   indices_in_range (fold (\<lambda>conflictingProof p. snd (removeProof conflictingProof p)) cs pool)"
  by (simp add: fold_removeProof indices_in_range_def list_all_iff)

lemma addProofIfPreferred_range:
  assumes "indices_in_range pool"
    and "addProofIfPreferred compare p pool = Inr (added, conflictingProofs, pool')"
  shows "indices_in_range pool'"
proof -
  from assms(2) obtain added1 cs1 pool1
    where first: "addProofIfNoConflict compare p pool = Inr (added1, cs1, pool1)"
    by (cases "addProofIfNoConflict compare p pool") (auto simp: addProofIfPreferred_def)
  have r1: "indices_in_range pool1"
    using assms(1) first by (rule addProofIfNoConflict_range)
  let ?pool2 = "fold (\<lambda>conflictingProof p. snd (removeProof conflictingProof p)) cs1 pool1"
  have r2: "indices_in_range ?pool2"
    using r1 by (rule fold_removeProof_range)
  show ?thesis
  proof (cases "added1 = REJECTED \<and> cs1 \<noteq> [] \<and> compare p (hd cs1)")
    case True
    then obtain best rest where cs1: "cs1 = best # rest" and better: "compare p best"
      by (cases cs1) auto
    from assms(2) first True cs1 better obtain added2 cs2
      where "addProofIfNoConflict compare p ?pool2 = Inr (added2, cs2, pool')"
      by (auto simp: addProofIfPreferred_def Let_def split: sum.splits if_splits)
    with r2 show ?thesis by (rule addProofIfNoConflict_range)
  next
    case False
    with assms(2) first have "pool' = pool1"
      by (auto simp: addProofIfPreferred_def Let_def split: list.splits if_splits)
    with r1 show ?thesis by simp
  qed
qed

lemma call_range:
  assumes r: "indices_in_range pool" and c: "call compare c pool = Inr pool'"
  shows "indices_in_range pool'"
proof (cases c)
  case (AddProofIfNoConflict p)
  with c obtain a cs where "addProofIfNoConflict compare p pool = Inr (a, cs, pool')"
    by (cases "addProofIfNoConflict compare p pool") auto
  with r show ?thesis by (rule addProofIfNoConflict_range)
next
  case (AddProofIfPreferred p)
  with c obtain a cs where "addProofIfPreferred compare p pool = Inr (a, cs, pool')"
    by (cases "addProofIfPreferred compare p pool") auto
  with r show ?thesis by (rule addProofIfPreferred_range)
next
  case (RemoveProof p)
  with c have "pool' = filter (\<lambda>e. getId (entry_proof e) \<noteq> getId p) pool"
    by (auto simp: removeProof_def erase_proofid_def)
  with r show ?thesis by (simp add: indices_in_range_def list_all_iff)
qed

lemma run_indices_in_range:
  "indices_in_range pool \<Longrightarrow> run compare cs pool = Inr pool' \<Longrightarrow> indices_in_range pool'"
proof (induction cs arbitrary: pool)
  case Nil
  then show ?case by simp
next
  case (Cons c cs)
  from Cons.prems(2) obtain mid where mid: "call compare c pool = Inr mid"
    and rest: "run compare cs mid = Inr pool'"
    by (cases "call compare c pool") simp_all
  from Cons.prems(1) mid have "indices_in_range mid" by (rule call_range)
  then show ?case using rest by (rule Cons.IH)
qed

subsection \<open>A proof that lists an outpoint twice\<close>

lemma cleanup_error: "cleanup proofid ss pool = Inl err \<Longrightarrow> err = AssertionFailed"
proof (induction ss arbitrary: pool)
  case Nil
  then show ?case by simp
next
  case (Cons s ss)
  show ?case
  proof (cases "find_utxo s pool")
    case None
    with Cons.prems show ?thesis by simp
  next
    case (Some e)
    with Cons.prems have "cleanup proofid ss
        (if getId (entry_proof e) = proofid then erase e pool else pool) = Inl err"
      by simp
    then show ?thesis by (rule Cons.IH)
  qed
qed

text \<open>
  Whenever a proof that is not in the pool lists twice an outpoint that the pool does not
  hold, \<open>addProofIfNoConflict\<close> fails the assertion of its cleanup loop.
\<close>

lemma repeated_stake_fails:
  assumes fresh: "find_proofid (getId p) pool = None"
    and j: "j < length (getStakes p)"
    and dup: "getStakes p ! j \<in> set (take j (getStakes p))"
    and out: "getStakes p ! j \<notin> getUTXO ` set pool"
  shows "addProofIfNoConflict compare p pool = Inl AssertionFailed"
proof -
  let ?S = "getStakes p"
  from fresh have A1: "\<forall>e\<in>set pool. getId (entry_proof e) \<noteq> getId p"
    by (simp only: find_proofid_None)
  from attach_prefix [OF le_refl, where p = p and compare = compare and P = pool]
  obtain new cs where
    run: "attach_utxos compare p pool = (pool @ new, cs)" and
    a: "\<forall>e\<in>set new. entry_proof e = p \<and> utxoIndex e < length ?S \<and>
          getUTXO e \<notin> getUTXO ` set pool" and
    f: "distinct (map getUTXO new)" and
    d: "cs = [] \<longrightarrow> (\<forall>j<length ?S. ProofPoolEntry j p \<in> set new)"
    unfolding attach_utxos_def by (elim exE conjE)
  from dup obtain i where i: "i < j" and same: "?S ! i = ?S ! j"
    by (auto simp: in_set_conv_nth)
  have nonempty: "cs \<noteq> []"
  proof
    assume "cs = []"
    with d i j have "ProofPoolEntry i p \<in> set new" "ProofPoolEntry j p \<in> set new"
      by simp_all
    moreover have "getUTXO (ProofPoolEntry i p) = getUTXO (ProofPoolEntry j p)"
      by (simp add: getUTXO_def same)
    moreover from f have "inj_on getUTXO (set new)" by (simp add: distinct_map)
    ultimately have "ProofPoolEntry i p = ProofPoolEntry j p" by (metis inj_onD)
    with i show False by simp
  qed
  from a have A2: "\<forall>e\<in>set new. getId (entry_proof e) = getId p" by simp
  from a have A3: "\<forall>e\<in>set new. getUTXO e \<notin> getUTXO ` set pool" by simp
  from cleanup_dup_fails [OF A1 A2 A3 f j dup out]
  have "\<forall>r. cleanup (getId p) ?S (pool @ new) \<noteq> Inr r" by blast
  then obtain err where "cleanup (getId p) ?S (pool @ new) = Inl err"
    by (cases "cleanup (getId p) ?S (pool @ new)") auto
  with cleanup_error [OF this] have "cleanup (getId p) ?S (pool @ new) = Inl AssertionFailed"
    by simp
  with addProofIfNoConflict_fresh [OF fresh run] nonempty show ?thesis by simp
qed

lemma succeeded_facts:
  assumes ok: "addProofIfNoConflict compare p pool = Inr (SUCCEED, cs, pool1)"
  shows "cs = []" and "\<forall>j<length (getStakes p). ProofPoolEntry j p \<in> set pool1"
proof -
  let ?S = "getStakes p"
  have fresh: "find_proofid (getId p) pool = None"
    using ok by (cases "find_proofid (getId p) pool") (simp_all add: addProofIfNoConflict_def)
  from attach_prefix [OF le_refl, where p = p and compare = compare and P = pool]
  obtain new cs1 where
    run: "attach_utxos compare p pool = (pool @ new, cs1)" and
    d: "cs1 = [] \<longrightarrow> (\<forall>j<length ?S. ProofPoolEntry j p \<in> set new)"
    unfolding attach_utxos_def by (elim exE conjE)
  note unfolded = addProofIfNoConflict_fresh [OF fresh run]
  from ok unfolded have empty: "cs1 = []"
    by (cases "cs1 = []") (simp_all split: sum.splits)
  with ok unfolded have "cs = []" and p1: "pool1 = pool @ new" by simp_all
  then show "cs = []" by simp
  from d empty p1 show "\<forall>j<length ?S. ProofPoolEntry j p \<in> set pool1" by simp
qed

subsection \<open>The claims on insertion\<close>

text \<open>
  Claim C2. If \<open>addProofIfNoConflict\<close> returns \<open>REJECTED\<close>, the pool after the call is the
  pool before it, so both lookups answer as before. With the comparator a strict total
  order, and the pool's outpoints unique as the container keeps them, the conflict set
  then holds exactly the proofs of the pool that claim one of the candidate's outpoints,
  each once.
\<close>

theorem rejection_is_atomic:
  assumes "addProofIfNoConflict compare p pool = Inr (REJECTED, conflictingProofs, pool')"
  shows "pool' = pool \<and>
    (\<forall>outpoint. getProof_outpoint outpoint pool' = getProof_outpoint outpoint pool) \<and>
    (\<forall>proofid. getProof_id proofid pool' = getProof_id proofid pool) \<and>
    (strict_total_order compare \<longrightarrow> unique_outputs pool \<longrightarrow>
       set conflictingProofs =
         entry_proof ` {e \<in> set pool. getUTXO e \<in> set (getStakes p)} \<and>
       distinct conflictingProofs)"
proof -
  note facts = rejected_facts [OF assms]
  have same: "pool' = pool" by (rule facts(1))
  have exact: "strict_total_order compare \<longrightarrow> unique_outputs pool \<longrightarrow>
       set conflictingProofs =
         entry_proof ` {e \<in> set pool. getUTXO e \<in> set (getStakes p)} \<and>
       distinct conflictingProofs"
  proof (intro impI conjI)
    assume o: "strict_total_order compare" and u: "unique_outputs pool"
    have "set conflictingProofs \<subseteq>
        entry_proof ` {e \<in> set pool. getUTXO e \<in> set (getStakes p)}"
    proof
      fix c assume "c \<in> set conflictingProofs"
      with facts(4) obtain e where "e \<in> set pool" "getUTXO e \<in> set (getStakes p)"
        "entry_proof e = c" by blast
      then show "c \<in> entry_proof ` {e \<in> set pool. getUTXO e \<in> set (getStakes p)}"
        by (intro image_eqI [of _ _ e]) simp_all
    qed
    moreover have "entry_proof ` {e \<in> set pool. getUTXO e \<in> set (getStakes p)}
        \<subseteq> set conflictingProofs"
    proof
      fix c assume "c \<in> entry_proof ` {e \<in> set pool. getUTXO e \<in> set (getStakes p)}"
      then obtain e where "c = entry_proof e" "e \<in> set pool" "getUTXO e \<in> set (getStakes p)"
        by blast
      with facts(6) o u show "c \<in> set conflictingProofs" by simp
    qed
    ultimately show "set conflictingProofs =
        entry_proof ` {e \<in> set pool. getUTXO e \<in> set (getStakes p)}"
      by (rule equalityI)
    from facts(5) o have "sorted_wrt compare conflictingProofs" by simp
    with o show "distinct conflictingProofs" by (rule sorted_wrt_distinct)
  qed
  from same exact show ?thesis by simp
qed

theorem rejection_is_atomic_witness:
  "addProofIfNoConflict lowestIdFirst (Proof 2 [(7, 0), (9, 0)])
       [ProofPoolEntry 0 (Proof 3 [(7, 0)]), ProofPoolEntry 0 (Proof 4 [(8, 0)])]
     = Inr (REJECTED, [Proof 3 [(7, 0)]],
         [ProofPoolEntry 0 (Proof 3 [(7, 0)]), ProofPoolEntry 0 (Proof 4 [(8, 0)])]) \<and>
   strict_total_order lowestIdFirst \<and>
   unique_outputs [ProofPoolEntry 0 (Proof 3 [(7, 0)]), ProofPoolEntry 0 (Proof 4 [(8, 0)])] \<and>
   set [Proof 3 [(7, 0)]] =
     entry_proof ` {e \<in> set [ProofPoolEntry 0 (Proof 3 [(7, 0)]), ProofPoolEntry 0 (Proof 4 [(8, 0)])].
                     getUTXO e \<in> set (getStakes (Proof 2 [(7, 0), (9, 0)]))}"
proof -
  have r: "addProofIfNoConflict lowestIdFirst (Proof 2 [(7, 0), (9, 0)])
       [ProofPoolEntry 0 (Proof 3 [(7, 0)]), ProofPoolEntry 0 (Proof 4 [(8, 0)])]
     = Inr (REJECTED, [Proof 3 [(7, 0)]],
         [ProofPoolEntry 0 (Proof 3 [(7, 0)]), ProofPoolEntry 0 (Proof 4 [(8, 0)])])"
    by code_simp
  have u: "unique_outputs [ProofPoolEntry 0 (Proof 3 [(7, 0)]), ProofPoolEntry 0 (Proof 4 [(8, 0)])]"
    by (simp add: unique_outputs_def getUTXO_def)
  from rejection_is_atomic [OF r] lowestIdFirst_order u
  have "set [Proof 3 [(7, 0)]] =
     entry_proof ` {e \<in> set [ProofPoolEntry 0 (Proof 3 [(7, 0)]), ProofPoolEntry 0 (Proof 4 [(8, 0)])].
                     getUTXO e \<in> set (getStakes (Proof 2 [(7, 0), (9, 0)]))}"
    by blast
  with r lowestIdFirst_order u show ?thesis by (intro conjI)
qed

text \<open>
  Claim C5. A proof whose id is indexed gets \<open>DUPLICATED\<close>, the pool unchanged and the
  conflict set empty. Hence a proof that was added with \<open>SUCCEED\<close> gets \<open>DUPLICATED\<close>
  when added again, the pool unchanged by the second call: a proof stakes one or more
  outputs, so the first call has left an entry of its id. A proof of distinct stakes
  whose id and outpoints are not in the pool is added with \<open>SUCCEED\<close>.
\<close>

theorem duplicate_insert:
  "(find_proofid (getId p) pool \<noteq> None \<longrightarrow>
      addProofIfNoConflict compare p pool = Inr (DUPLICATED, [], pool)) \<and>
   (getStakes p \<noteq> [] \<longrightarrow>
      addProofIfNoConflict compare p pool = Inr (SUCCEED, cs, pool1) \<longrightarrow>
      addProofIfNoConflict compare p pool1 = Inr (DUPLICATED, [], pool1)) \<and>
   (find_proofid (getId p) pool = None \<longrightarrow>
      (\<forall>e\<in>set pool. getUTXO e \<notin> set (getStakes p)) \<longrightarrow> distinct (getStakes p) \<longrightarrow>
      (\<exists>pool2. addProofIfNoConflict compare p pool = Inr (SUCCEED, [], pool2)))"
proof (intro conjI impI)
  assume "find_proofid (getId p) pool \<noteq> None"
  then show "addProofIfNoConflict compare p pool = Inr (DUPLICATED, [], pool)"
    by (simp add: addProofIfNoConflict_def)
next
  assume stakes: "getStakes p \<noteq> []"
    and ok: "addProofIfNoConflict compare p pool = Inr (SUCCEED, cs, pool1)"
  from stakes have "0 < length (getStakes p)" by simp
  with succeeded_facts(2) [OF ok] have "ProofPoolEntry 0 p \<in> set pool1" by blast
  then have "\<exists>e\<in>set pool1. getId (entry_proof e) = getId p"
    by (intro bexI [of _ "ProofPoolEntry 0 p"]) simp_all
  then have "find_proofid (getId p) pool1 \<noteq> None"
    by (simp add: find_proofid_None)
  then show "addProofIfNoConflict compare p pool1 = Inr (DUPLICATED, [], pool1)"
    by (simp add: addProofIfNoConflict_def)
next
  assume "find_proofid (getId p) pool = None"
    and "\<forall>e\<in>set pool. getUTXO e \<notin> set (getStakes p)"
    and "distinct (getStakes p)"
  from add_succeeds [OF this, of compare]
  show "\<exists>pool2. addProofIfNoConflict compare p pool = Inr (SUCCEED, [], pool2)"
    by blast
qed

theorem duplicate_insert_witness:
  "getStakes (Proof 1 [(7, 0), (8, 0)]) \<noteq> [] \<and>
   addProofIfNoConflict lowestIdFirst (Proof 1 [(7, 0), (8, 0)]) [] =
     Inr (SUCCEED, [],
       [ProofPoolEntry 0 (Proof 1 [(7, 0), (8, 0)]), ProofPoolEntry 1 (Proof 1 [(7, 0), (8, 0)])]) \<and>
   addProofIfNoConflict lowestIdFirst (Proof 1 [(7, 0), (8, 0)])
       [ProofPoolEntry 0 (Proof 1 [(7, 0), (8, 0)]), ProofPoolEntry 1 (Proof 1 [(7, 0), (8, 0)])] =
     Inr (DUPLICATED, [],
       [ProofPoolEntry 0 (Proof 1 [(7, 0), (8, 0)]), ProofPoolEntry 1 (Proof 1 [(7, 0), (8, 0)])])"
proof -
  have s: "getStakes (Proof 1 [(7, 0), (8, 0)]) \<noteq> []" by simp
  have r: "addProofIfNoConflict lowestIdFirst (Proof 1 [(7, 0), (8, 0)]) [] =
     Inr (SUCCEED, [],
       [ProofPoolEntry 0 (Proof 1 [(7, 0), (8, 0)]), ProofPoolEntry 1 (Proof 1 [(7, 0), (8, 0)])])"
    by code_simp
  from duplicate_insert [where p = "Proof 1 [(7, 0), (8, 0)]" and pool = "[]"
      and compare = lowestIdFirst and cs = "[]"
      and ?pool1.0 = "[ProofPoolEntry 0 (Proof 1 [(7, 0), (8, 0)]), ProofPoolEntry 1 (Proof 1 [(7, 0), (8, 0)])]"]
    s r
  have "addProofIfNoConflict lowestIdFirst (Proof 1 [(7, 0), (8, 0)])
       [ProofPoolEntry 0 (Proof 1 [(7, 0), (8, 0)]), ProofPoolEntry 1 (Proof 1 [(7, 0), (8, 0)])] =
     Inr (DUPLICATED, [],
       [ProofPoolEntry 0 (Proof 1 [(7, 0), (8, 0)]), ProofPoolEntry 1 (Proof 1 [(7, 0), (8, 0)])])"
    by blast
  with s r show ?thesis by (intro conjI)
qed

subsection \<open>The claims on preference\<close>

text \<open>
  Claim C3, as amended. Let the comparator be a strict total order and the pool's
  outpoints unique. Let proof \<open>a\<close>, not in the pool and with distinct stakes, stake an
  outpoint that proof \<open>b\<close> holds in the pool. If the comparator ranks \<open>a\<close> ahead of every
  proof of the pool that claims one of \<open>a\<close>'s outpoints, \<open>addProofIfPreferred\<close> returns
  \<open>SUCCEED\<close>, no entry of \<open>b\<close> is left and the outpoint is looked up to \<open>a\<close>. If the
  comparator ranks \<open>b\<close> ahead of \<open>a\<close>, it returns \<open>REJECTED\<close>, the pool is unchanged
  and \<open>b\<close> still holds the outpoint.
\<close>

theorem preference_resolution:
  assumes order: "strict_total_order compare" and uniq: "unique_outputs pool"
    and fresh: "find_proofid (getId a) pool = None" and dist: "distinct (getStakes a)"
    and stake: "outpoint \<in> set (getStakes a)"
    and held: "getProof_outpoint outpoint pool = Some b"
  shows "((\<forall>e\<in>set pool. getUTXO e \<in> set (getStakes a) \<longrightarrow> compare a (entry_proof e)) \<longrightarrow>
            (\<exists>cs pool'. addProofIfPreferred compare a pool = Inr (SUCCEED, cs, pool') \<and>
               getProof_id (getId b) pool' = None \<and>
               (\<forall>e\<in>set pool'. entry_proof e \<noteq> b) \<and>
               getProof_outpoint outpoint pool' = Some a)) \<and>
         (compare b a \<longrightarrow>
            (\<exists>cs. addProofIfPreferred compare a pool = Inr (REJECTED, cs, pool)) \<and>
            getProof_outpoint outpoint pool = Some b)"
proof -
  let ?S = "getStakes a"
  from held obtain x where fx: "find_utxo outpoint pool = Some x" and bx: "b = entry_proof x"
    by (auto simp: getProof_outpoint_def)
  from find_utxo_SomeD [OF fx] have x: "x \<in> set pool" and kx: "getUTXO x = outpoint"
    by simp_all
  from kx stake have kS: "getUTXO x \<in> set ?S" by simp
  from add_rejects [OF fresh dist x kS, of compare] obtain cs
    where rej: "addProofIfNoConflict compare a pool = Inr (REJECTED, cs, pool)" ..
  note facts = rejected_facts [OF rej]
  from facts(3) obtain best rest where cs: "cs = best # rest" by (cases cs) simp_all
  from facts(5) order have sorted: "sorted_wrt compare (best # rest)" by (simp add: cs)
  from facts(6) order uniq x kS have "entry_proof x \<in> set cs" by simp
  with bx have b_in: "b \<in> set cs" by simp
  from fresh have A1: "\<forall>e\<in>set pool. getId (entry_proof e) \<noteq> getId a"
    by (simp only: find_proofid_None)
  have first: "(\<forall>e\<in>set pool. getUTXO e \<in> set ?S \<longrightarrow> compare a (entry_proof e)) \<longrightarrow>
      (\<exists>cs pool'. addProofIfPreferred compare a pool = Inr (SUCCEED, cs, pool') \<and>
         getProof_id (getId b) pool' = None \<and>
         (\<forall>e\<in>set pool'. entry_proof e \<noteq> b) \<and>
         getProof_outpoint outpoint pool' = Some a)"
  proof
    assume ahead: "\<forall>e\<in>set pool. getUTXO e \<in> set ?S \<longrightarrow> compare a (entry_proof e)"
    have "best \<in> set cs" by (simp add: cs)
    with facts(4) obtain y where "y \<in> set pool" "getUTXO y \<in> set ?S" "entry_proof y = best"
      by blast
    with ahead have better: "compare a best" by blast
    let ?pool2 = "fold (\<lambda>conflictingProof p. snd (removeProof conflictingProof p)) cs pool"
    have pool2: "?pool2 = filter (\<lambda>e. getId (entry_proof e) \<notin> getId ` set cs) pool"
      by (rule fold_removeProof)
    have fresh2: "find_proofid (getId a) ?pool2 = None"
      using A1 by (simp add: find_proofid_None pool2)
    have free2: "\<forall>e\<in>set ?pool2. getUTXO e \<notin> set ?S"
    proof
      fix e assume "e \<in> set ?pool2"
      then have e: "e \<in> set pool" and gone: "getId (entry_proof e) \<notin> getId ` set cs"
        by (simp_all add: pool2)
      show "getUTXO e \<notin> set ?S"
      proof
        assume "getUTXO e \<in> set ?S"
        with facts(6) order uniq e have "entry_proof e \<in> set cs" by simp
        then have "getId (entry_proof e) \<in> getId ` set cs" by (rule imageI)
        with gone show False by simp
      qed
    qed
    from add_succeeds [OF fresh2 free2 dist, of compare] obtain new where
      ok: "addProofIfNoConflict compare a ?pool2 = Inr (SUCCEED, [], ?pool2 @ new)" and
      mine: "\<forall>e\<in>set new. entry_proof e = a" and
      every: "\<forall>j<length ?S. ProofPoolEntry j a \<in> set new"
      by blast
    have result: "addProofIfPreferred compare a pool = Inr (SUCCEED, cs, ?pool2 @ new)"
      using rej better ok by (simp add: addProofIfPreferred_def cs)
    from x A1 bx have ids: "getId a \<noteq> getId b" by metis
    have no_b: "\<forall>e\<in>set (?pool2 @ new). getId (entry_proof e) \<noteq> getId b"
    proof
      fix e assume "e \<in> set (?pool2 @ new)"
      then consider "e \<in> set ?pool2" | "e \<in> set new" by auto
      then show "getId (entry_proof e) \<noteq> getId b"
      proof cases
        case 1
        then have "getId (entry_proof e) \<notin> getId ` set cs" by (simp add: pool2)
        moreover from b_in have "getId b \<in> getId ` set cs" by (rule imageI)
        ultimately show ?thesis by metis
      next
        case 2
        with mine ids show ?thesis by simp
      qed
    qed
    then have absent: "getProof_id (getId b) (?pool2 @ new) = None"
      by (simp only: getProof_id_def find_proofid_None [THEN iffD2] option.map)
    from no_b have none: "\<forall>e\<in>set (?pool2 @ new). entry_proof e \<noteq> b" by metis
    from stake obtain j where j: "j < length ?S" and sj: "?S ! j = outpoint"
      by (auto simp: in_set_conv_nth)
    from every j have "ProofPoolEntry j a \<in> set new" by simp
    moreover have "getUTXO (ProofPoolEntry j a) = outpoint" by (simp add: getUTXO_def sj)
    ultimately have "outpoint \<in> getUTXO ` set new" by (metis imageI)
    then have "find_utxo outpoint new \<noteq> None" by (simp add: find_utxo_None)
    then obtain y where y: "find_utxo outpoint new = Some y" by blast
    from free2 stake have "outpoint \<notin> getUTXO ` set ?pool2" by blast
    then have "find_utxo outpoint ?pool2 = None" by (simp only: find_utxo_None) simp
    with y have "find_utxo outpoint (?pool2 @ new) = Some y"
      by (simp only: find_utxo_append option.case)
    moreover from find_utxo_SomeD [OF y] mine have "entry_proof y = a" by simp
    ultimately have lookup: "getProof_outpoint outpoint (?pool2 @ new) = Some a"
      by (simp only: getProof_outpoint_def option.map)
    from result absent none lookup
    show "\<exists>cs pool'. addProofIfPreferred compare a pool = Inr (SUCCEED, cs, pool') \<and>
         getProof_id (getId b) pool' = None \<and>
         (\<forall>e\<in>set pool'. entry_proof e \<noteq> b) \<and>
         getProof_outpoint outpoint pool' = Some a"
      by (intro exI [of _ cs] exI [of _ "?pool2 @ new"] conjI)
  qed
  have second: "compare b a \<longrightarrow>
      (\<exists>cs. addProofIfPreferred compare a pool = Inr (REJECTED, cs, pool)) \<and>
      getProof_outpoint outpoint pool = Some b"
  proof (intro impI conjI)
    assume ba: "compare b a"
    from b_in have "b \<in> set (best # rest)" by (simp only: cs)
    from sorted_wrt_head_first [OF order sorted this ba] have "\<not> compare a best" .
    with rej have "addProofIfPreferred compare a pool = Inr (REJECTED, cs, pool)"
      by (simp add: addProofIfPreferred_def cs)
    then show "\<exists>cs. addProofIfPreferred compare a pool = Inr (REJECTED, cs, pool)" ..
  next
    show "getProof_outpoint outpoint pool = Some b" by (rule held)
  qed
  from first second show ?thesis by (rule conjI)
qed

theorem preference_resolution_witness:
  "strict_total_order lowestIdFirst \<and>
   unique_outputs [ProofPoolEntry 0 (Proof 3 [(7, 0)]), ProofPoolEntry 0 (Proof 4 [(8, 0)])] \<and>
   getProof_outpoint (7, 0) [ProofPoolEntry 0 (Proof 3 [(7, 0)]), ProofPoolEntry 0 (Proof 4 [(8, 0)])]
     = Some (Proof 3 [(7, 0)]) \<and>
   lowestIdFirst (Proof 3 [(7, 0)]) (Proof 5 [(7, 0), (9, 0)]) \<and>
   (\<exists>cs. addProofIfPreferred lowestIdFirst (Proof 5 [(7, 0), (9, 0)])
       [ProofPoolEntry 0 (Proof 3 [(7, 0)]), ProofPoolEntry 0 (Proof 4 [(8, 0)])]
     = Inr (REJECTED, cs,
         [ProofPoolEntry 0 (Proof 3 [(7, 0)]), ProofPoolEntry 0 (Proof 4 [(8, 0)])])) \<and>
   (\<exists>cs pool'. addProofIfPreferred lowestIdFirst (Proof 2 [(7, 0), (8, 0)])
       [ProofPoolEntry 0 (Proof 3 [(7, 0)]), ProofPoolEntry 0 (Proof 4 [(8, 0)])]
     = Inr (SUCCEED, cs, pool') \<and>
     getProof_id (getId (Proof 3 [(7, 0)])) pool' = None \<and>
     getProof_outpoint (7, 0) pool' = Some (Proof 2 [(7, 0), (8, 0)]))"
proof -
  let ?pool = "[ProofPoolEntry 0 (Proof 3 [(7, 0)]), ProofPoolEntry 0 (Proof 4 [(8, 0)])]"
  have u: "unique_outputs ?pool"
    by (simp add: unique_outputs_def getUTXO_def)
  have h: "getProof_outpoint (7, 0) ?pool = Some (Proof 3 [(7, 0)])"
    by code_simp
  have f5: "find_proofid (getId (Proof 5 [(7, 0), (9, 0)])) ?pool = None" by code_simp
  have d5: "distinct (getStakes (Proof 5 [(7, 0), (9, 0)]))" by simp
  have s5: "(7, 0) \<in> set (getStakes (Proof 5 [(7, 0), (9, 0)]))" by simp
  have below: "lowestIdFirst (Proof 3 [(7, 0)]) (Proof 5 [(7, 0), (9, 0)])"
    by (simp add: lowestIdFirst_def)
  from preference_resolution [OF lowestIdFirst_order u f5 d5 s5 h] below
  have rejected: "\<exists>cs. addProofIfPreferred lowestIdFirst (Proof 5 [(7, 0), (9, 0)]) ?pool
     = Inr (REJECTED, cs, ?pool)"
    by blast
  have f2: "find_proofid (getId (Proof 2 [(7, 0), (8, 0)])) ?pool = None" by code_simp
  have d2: "distinct (getStakes (Proof 2 [(7, 0), (8, 0)]))" by simp
  have s2: "(7, 0) \<in> set (getStakes (Proof 2 [(7, 0), (8, 0)]))" by simp
  have ahead: "\<forall>e\<in>set ?pool. getUTXO e \<in> set (getStakes (Proof 2 [(7, 0), (8, 0)])) \<longrightarrow>
      lowestIdFirst (Proof 2 [(7, 0), (8, 0)]) (entry_proof e)"
    by (simp add: lowestIdFirst_def)
  from preference_resolution [OF lowestIdFirst_order u f2 d2 s2 h] ahead
  have accepted: "\<exists>cs pool'. addProofIfPreferred lowestIdFirst (Proof 2 [(7, 0), (8, 0)]) ?pool
     = Inr (SUCCEED, cs, pool') \<and>
     getProof_id (getId (Proof 3 [(7, 0)])) pool' = None \<and>
     getProof_outpoint (7, 0) pool' = Some (Proof 2 [(7, 0), (8, 0)])"
    by blast
  from lowestIdFirst_order u h below rejected accepted show ?thesis by (intro conjI)
qed

text \<open>
  The claim as first stated fails when the candidate conflicts with several proofs: it is
  compared with the best of them only. Here proof 2 is ranked ahead of proof 3, which
  holds one of its outpoints, but behind proof 1, which holds the other; it is rejected
  and proof 3 keeps its outpoint.
\<close>

theorem preference_resolution_counterexample:
  "run lowestIdFirst
      [AddProofIfNoConflict (Proof 3 [(7, 0)]), AddProofIfNoConflict (Proof 1 [(8, 0)])] []
     = Inr [ProofPoolEntry 0 (Proof 3 [(7, 0)]), ProofPoolEntry 0 (Proof 1 [(8, 0)])] \<and>
   getProof_outpoint (7, 0) [ProofPoolEntry 0 (Proof 3 [(7, 0)]), ProofPoolEntry 0 (Proof 1 [(8, 0)])]
     = Some (Proof 3 [(7, 0)]) \<and>
   (7, 0) \<in> set (getStakes (Proof 2 [(7, 0), (8, 0)])) \<and>
   lowestIdFirst (Proof 2 [(7, 0), (8, 0)]) (Proof 3 [(7, 0)]) \<and>
   addProofIfPreferred lowestIdFirst (Proof 2 [(7, 0), (8, 0)])
       [ProofPoolEntry 0 (Proof 3 [(7, 0)]), ProofPoolEntry 0 (Proof 1 [(8, 0)])]
     = Inr (REJECTED, [Proof 1 [(8, 0)], Proof 3 [(7, 0)]],
         [ProofPoolEntry 0 (Proof 3 [(7, 0)]), ProofPoolEntry 0 (Proof 1 [(8, 0)])])"
  by code_simp

text \<open>
  For a proof of distinct stakes and a comparator that is a strict total order, the
  retry of \<open>addProofIfPreferred\<close> succeeds: once the conflicting proofs of a rejected
  attempt are removed, no entry of the pool claims an outpoint of the proof.
\<close>

lemma retry_succeeds:
  assumes order: "strict_total_order compare" and uniq: "unique_outputs pool"
    and dist: "distinct (getStakes a)"
    and rej: "addProofIfNoConflict compare a pool = Inr (REJECTED, cs, pool1)"
  shows "\<exists>new. addProofIfNoConflict compare a
      (fold (\<lambda>conflictingProof p. snd (removeProof conflictingProof p)) cs pool1) =
    Inr (SUCCEED, [],
      fold (\<lambda>conflictingProof p. snd (removeProof conflictingProof p)) cs pool1 @ new)"
proof -
  let ?S = "getStakes a"
  note facts = rejected_facts [OF rej]
  have same: "pool1 = pool" by (rule facts(1))
  let ?pool2 = "fold (\<lambda>conflictingProof p. snd (removeProof conflictingProof p)) cs pool"
  have pool2: "?pool2 = filter (\<lambda>e. getId (entry_proof e) \<notin> getId ` set cs) pool"
    by (rule fold_removeProof)
  from facts(2) have "\<forall>e\<in>set pool. getId (entry_proof e) \<noteq> getId a"
    by (simp only: find_proofid_None)
  then have fresh2: "find_proofid (getId a) ?pool2 = None"
    by (simp add: find_proofid_None pool2)
  have free2: "\<forall>e\<in>set ?pool2. getUTXO e \<notin> set ?S"
  proof
    fix e assume "e \<in> set ?pool2"
    then have e: "e \<in> set pool" and gone: "getId (entry_proof e) \<notin> getId ` set cs"
      by (simp_all add: pool2)
    show "getUTXO e \<notin> set ?S"
    proof
      assume "getUTXO e \<in> set ?S"
      with facts(6) order uniq e have "entry_proof e \<in> set cs" by simp
      then have "getId (entry_proof e) \<in> getId ` set cs" by (rule imageI)
      with gone show False by simp
    qed
  qed
  from add_succeeds [OF fresh2 free2 dist, of compare]
  have "\<exists>new. addProofIfNoConflict compare a ?pool2 = Inr (SUCCEED, [], ?pool2 @ new)"
    by blast
  then show ?thesis by (simp only: same)
qed

text \<open>
  Claim C4 fails on the code for a proof that lists an outpoint twice. Proof 3 holds
  the outpoint; proof 2 lists it twice and is ranked ahead of proof 3. The first attempt
  is rejected with proof 3 as the only conflict; after its removal the retry inserts the
  first occurrence, collides with it on the second, and the cleanup loop fails its
  assertion on the second occurrence.
\<close>

theorem retry_fails_on_repeated_stake:
  "run lowestIdFirst [AddProofIfNoConflict (Proof 3 [(7, 0)])] []
     = Inr [ProofPoolEntry 0 (Proof 3 [(7, 0)])] \<and>
   addProofIfNoConflict lowestIdFirst (Proof 2 [(7, 0), (7, 0)])
       [ProofPoolEntry 0 (Proof 3 [(7, 0)])]
     = Inr (REJECTED, [Proof 3 [(7, 0)]], [ProofPoolEntry 0 (Proof 3 [(7, 0)])]) \<and>
   lowestIdFirst (Proof 2 [(7, 0), (7, 0)]) (Proof 3 [(7, 0)]) \<and>
   snd (removeProof (Proof 3 [(7, 0)]) [ProofPoolEntry 0 (Proof 3 [(7, 0)])]) = [] \<and>
   addProofIfNoConflict lowestIdFirst (Proof 2 [(7, 0), (7, 0)]) [] = Inl AssertionFailed \<and>
   addProofIfPreferred lowestIdFirst (Proof 2 [(7, 0), (7, 0)])
       [ProofPoolEntry 0 (Proof 3 [(7, 0)])]
     = Inl AssertionFailed"
  by code_simp

text \<open>
  Claim C10 fails on the code. A proof that lists an outpoint twice, on a pool without
  that outpoint, is recorded as its own conflict by the first loop; the cleanup loop
  erases its entry at the first occurrence and fails the assertion at the second, so
  the call does not return \<open>REJECTED\<close>.
\<close>

theorem self_collision_fails_assertion:
  "attach_utxos lowestIdFirst (Proof 1 [(7, 0), (7, 0)]) []
     = ([ProofPoolEntry 0 (Proof 1 [(7, 0), (7, 0)])], [Proof 1 [(7, 0), (7, 0)]]) \<and>
   cleanup 1 [(7, 0), (7, 0)] [ProofPoolEntry 0 (Proof 1 [(7, 0), (7, 0)])]
     = Inl AssertionFailed \<and>
   addProofIfNoConflict lowestIdFirst (Proof 1 [(7, 0), (7, 0)]) [] = Inl AssertionFailed"
  by code_simp

end
